theory Spec2Isabelle
  imports Main
begin

section \<open>JSSE: the Javascript Simple Search Engine of \<^verbatim>\<open>src/jsse.js\<close>\<close>

text \<open>
  The engine is one constructor \<^verbatim>\<open>Jsse\<close> with three fields (\<^verbatim>\<open>size\<close>,
  \<^verbatim>\<open>collection\<close>, \<^verbatim>\<open>keys\<close>), the public methods \<^verbatim>\<open>add\<close>, \<^verbatim>\<open>remove\<close>,
  \<^verbatim>\<open>clear\<close>, \<^verbatim>\<open>getWords\<close>, \<^verbatim>\<open>match\<close>, and private helpers. Each method is
  translated into a function that takes the state and returns the new one (and the value
  the method computes).

  Conventions of the translation:
  \<^item> A JavaScript string is a \<^typ>\<open>string\<close>: a list of code units below 256. A text or
    a query is a string or \<^verbatim>\<open>null\<close> (\<open>None\<close>); a key or a mode is a string or absent
    (\<open>None\<close>).
  \<^item> A JavaScript number is an \<^typ>\<open>int\<close> (unbounded: no rounding above \<open>2^53\<close>, and
    no \<^verbatim>\<open>RangeError\<close> for an array length of \<open>2^32\<close> or more), or the number
    \<^verbatim>\<open>NaN\<close> where the code stores it.
  \<^item> An object used as a dictionary is the list of its own enumerable properties in the
    order \<^verbatim>\<open>for (k in obj)\<close> visits them (ECMAScript 2015 and later): the array
    indices first, in ascending numeric order, then the other names in the order in which
    they were created.
  \<^item> Every dictionary of the engine is created by \<^verbatim>\<open>{}\<close> and inherits from
    \<^verbatim>\<open>Object.prototype\<close>. Reading a name that the dictionary does not hold gives the
    inherited value: a function for \<^verbatim>\<open>constructor\<close>, \<^verbatim>\<open>toString\<close> and the other
    methods, the prototype itself for \<^verbatim>\<open>__proto__\<close>. The code can write to the
    prototype: \<^verbatim>\<open>index[word].count++\<close> in \<^verbatim>\<open>_index\<close>, for the word
    \<^verbatim>\<open>__proto__\<close>, gives \<^verbatim>\<open>Object.prototype\<close> the enumerable property \<^verbatim>\<open>count\<close>
    with the value \<^verbatim>\<open>NaN\<close>. From then on every \<^verbatim>\<open>for (k in obj)\<close>, over a dictionary
    or an array, visits \<^verbatim>\<open>count\<close> after the own names (unless it is one of them). The
    state therefore holds, beside the fields of the engine, whether \<^verbatim>\<open>Object.prototype\<close>
    has the property \<^verbatim>\<open>count\<close>.
  \<^item> The code is not in strict mode (it assigns to undeclared variables): an assignment
    to a property of the number \<^verbatim>\<open>NaN\<close> does nothing.
  \<^item> A call that raises a \<^verbatim>\<open>TypeError\<close> has the outcome \<open>Throws\<close>.
  \<^item> \<^verbatim>\<open>Array.prototype.sort\<close> is stable (ECMAScript 2019 and later).
  \<^item> A private method \<^verbatim>\<open>_name\<close> is written \<open>jsse_name\<close>; a name that HOL already
    uses gets a suffix.
\<close>

subsection \<open>Objects as dictionaries\<close>

type_synonym 'v obj = "(string \<times> 'v) list"

definition digit_chars :: string where
  "digit_chars = ''0123456789''"

definition dec_val :: "string \<Rightarrow> nat" where
  "dec_val k = foldl (\<lambda>a c. 10 * a + (of_char c - 48)) 0 k"

text \<open>An array index is the canonical decimal numeral of a number below \<open>2^32 - 1\<close>.\<close>

definition is_array_index :: "string \<Rightarrow> bool" where
  "is_array_index k =
     (k \<noteq> [] \<and> list_all (\<lambda>c. c \<in> set digit_chars) k
      \<and> (if length k = 1 then True else hd k \<noteq> CHR ''0'')
      \<and> dec_val k < 4294967295)"

text \<open>Creating a property: where the new name stands in the enumeration order.\<close>

definition goes_before :: "string \<Rightarrow> string \<Rightarrow> bool" where
  "goes_before k k' =
     (is_array_index k \<and> (if is_array_index k' then dec_val k < dec_val k' else True))"

fun obj_insert :: "string \<Rightarrow> 'v \<Rightarrow> 'v obj \<Rightarrow> 'v obj" where
  "obj_insert k v [] = [(k, v)]"
| "obj_insert k v ((k', v') # rest) =
     (if goes_before k k' then (k, v) # (k', v') # rest
      else (k', v') # obj_insert k v rest)"

definition obj_get :: "'v obj \<Rightarrow> string \<Rightarrow> 'v option" where
  "obj_get ob k = map_of ob k"

text \<open>\<^verbatim>\<open>obj[k] = v\<close>: an existing property keeps its place.\<close>

definition obj_set :: "string \<Rightarrow> 'v \<Rightarrow> 'v obj \<Rightarrow> 'v obj" where
  "obj_set k v ob =
     (case obj_get ob k of
        Some u \<Rightarrow> map (\<lambda>p. if fst p = k then (k, v) else p) ob
      | None \<Rightarrow> obj_insert k v ob)"

text \<open>\<^verbatim>\<open>delete(obj[k])\<close>.\<close>

definition obj_delete :: "string \<Rightarrow> 'v obj \<Rightarrow> 'v obj" where
  "obj_delete k ob = filter (\<lambda>p. fst p \<noteq> k) ob"

subsection \<open>Strings and arrays\<close>

text \<open>\<^verbatim>\<open>str.split(' ')\<close>: consecutive spaces give empty tokens.\<close>

fun split_loop :: "string \<Rightarrow> string \<Rightarrow> string list" where
  "split_loop [] cur = [rev cur]"
| "split_loop (c # cs) cur =
     (if c = CHR '' '' then rev cur # split_loop cs [] else split_loop cs (c # cur))"

definition split_space :: "string \<Rightarrow> string list" where
  "split_space s = split_loop s []"

definition upper_chars :: string where
  "upper_chars = ''ABCDEFGHIJKLMNOPQRSTUVWXYZ''"

definition lower_chars :: string where
  "lower_chars = ''abcdefghijklmnopqrstuvwxyz''"

definition lower_char :: "char \<Rightarrow> char" where
  "lower_char c = (case map_of (zip upper_chars lower_chars) c of Some d \<Rightarrow> d | None \<Rightarrow> c)"

definition toLowerCase :: "string \<Rightarrow> string" where
  "toLowerCase s = map lower_char s"

text \<open>The white space of \<^verbatim>\<open>\s\<close> and of \<^verbatim>\<open>trim\<close> among the code units below 256.\<close>

definition is_space :: "char \<Rightarrow> bool" where
  "is_space c = (c \<in> set [CHR 0x09, CHR 0x0A, CHR 0x0B, CHR 0x0C, CHR 0x0D, CHR 0x20, CHR 0xA0])"

definition trim :: "string \<Rightarrow> string" where
  "trim s = rev (dropWhile is_space (rev (dropWhile is_space s)))"

text \<open>The characters that \<^verbatim>\<open>replace(/[^a-z0-9_\-\s]/gi, '')\<close> keeps.\<close>

definition kept_char :: "char \<Rightarrow> bool" where
  "kept_char c =
     (c \<in> set lower_chars \<or> c \<in> set upper_chars \<or> c \<in> set digit_chars
      \<or> c = CHR ''_'' \<or> c = CHR ''-'' \<or> is_space c)"

text \<open>The helper \<^verbatim>\<open>indexOf(array, item)\<close>: the first position of the item, or \<open>-1\<close>.\<close>

fun indexOf_loop :: "'a list \<Rightarrow> 'a \<Rightarrow> int \<Rightarrow> int" where
  "indexOf_loop [] item i = - 1"
| "indexOf_loop (x # xs) item i = (if x = item then i else indexOf_loop xs item (i + 1))"

definition indexOf :: "'a list \<Rightarrow> 'a \<Rightarrow> int" where
  "indexOf array item = indexOf_loop array item 0"

text \<open>\<^verbatim>\<open>string.indexOf(word, start)\<close>: the first position from \<open>start\<close> on at which
  \<open>word\<close> occurs, or \<open>-1\<close>.\<close>

fun str_indexOf_loop :: "string \<Rightarrow> string \<Rightarrow> nat \<Rightarrow> int" where
  "str_indexOf_loop [] word i = (if word = [] then int i else - 1)"
| "str_indexOf_loop (c # cs) word i =
     (if take (length word) (c # cs) = word then int i else str_indexOf_loop cs word (Suc i))"

definition str_indexOf :: "string \<Rightarrow> string \<Rightarrow> nat \<Rightarrow> int" where
  "str_indexOf s word start =
     (let st = min start (length s) in str_indexOf_loop (drop st s) word st)"

text \<open>
  The helper \<^verbatim>\<open>removeFromArray(array, item)\<close> walks the array from its last position
  down to 0 and calls \<^verbatim>\<open>array.splice(i)\<close> at each position that holds the item;
  \<^verbatim>\<open>splice\<close> with one argument removes everything from position \<open>i\<close> to the end.
\<close>

fun removeFromArray_loop :: "nat \<Rightarrow> 'a list \<Rightarrow> 'a \<Rightarrow> 'a list" where
  "removeFromArray_loop 0 array item = array"
| "removeFromArray_loop (Suc i) array item =
     removeFromArray_loop i
       (if i < length array \<and> array ! i = item then take i array else array) item"

definition removeFromArray :: "'a list \<Rightarrow> 'a \<Rightarrow> 'a list" where
  "removeFromArray array item =
     (if length array = 0 then array else removeFromArray_loop (length array) array item)"

subsection \<open>What a dictionary inherits\<close>

text \<open>
  The names of the properties of \<^verbatim>\<open>Object.prototype\<close>. None is enumerable. Their
  values are functions, except that of \<^verbatim>\<open>__proto__\<close>, which reads as the prototype of
  the object: every one of them is truthy. \<open>proto_length\<close> is the \<^verbatim>\<open>length\<close> of the
  value (the number of parameters of a function; \<^verbatim>\<open>Object.prototype\<close> has no
  \<^verbatim>\<open>length\<close>, which counts as 0 in the loop of \<^verbatim>\<open>indexOf\<close>).
\<close>

definition proto_names :: "string list" where
  "proto_names = [''constructor'', ''__defineGetter__'', ''__defineSetter__'', ''hasOwnProperty'',
     ''__lookupGetter__'', ''__lookupSetter__'', ''isPrototypeOf'', ''propertyIsEnumerable'',
     ''toString'', ''valueOf'', ''__proto__'', ''toLocaleString'']"

definition proto_length :: "string \<Rightarrow> nat" where
  "proto_length name =
     (if name \<in> set [''__defineGetter__'', ''__defineSetter__''] then 2
      else if name \<in> set [''constructor'', ''hasOwnProperty'', ''__lookupGetter__'',
                ''__lookupSetter__'', ''isPrototypeOf'', ''propertyIsEnumerable''] then 1
      else 0)"

text \<open>A value that is a record (or an array) of the engine, or the number \<^verbatim>\<open>NaN\<close>.\<close>

datatype 'a jsval = NaN | Obj 'a

text \<open>
  \<^verbatim>\<open>for (k in obj)\<close>, where \<open>pc\<close> tells whether \<^verbatim>\<open>Object.prototype\<close> has the
  property \<^verbatim>\<open>count\<close>: the own names, then \<^verbatim>\<open>count\<close> unless it is an own name.
  \<open>for_in_entries\<close> gives every name with the value \<^verbatim>\<open>obj[k]\<close>, which for the inherited
  \<^verbatim>\<open>count\<close> is \<^verbatim>\<open>NaN\<close>; \<open>for_in_values\<close> does so for a dictionary that may hold
  \<^verbatim>\<open>NaN\<close> itself.
\<close>

definition for_in :: "bool \<Rightarrow> 'v obj \<Rightarrow> string list" where
  "for_in pc ob =
     map fst ob @ (if pc \<and> obj_get ob ''count'' = None then [''count''] else [])"

definition for_in_values :: "bool \<Rightarrow> 'v jsval obj \<Rightarrow> (string \<times> 'v jsval) list" where
  "for_in_values pc ob =
     ob @ (if pc \<and> obj_get ob ''count'' = None then [(''count'', NaN)] else [])"

definition for_in_entries :: "bool \<Rightarrow> 'v obj \<Rightarrow> (string \<times> 'v jsval) list" where
  "for_in_entries pc ob = for_in_values pc (map (\<lambda>p. (fst p, Obj (snd p))) ob)"

text \<open>The outcome of a call that may raise a \<^verbatim>\<open>TypeError\<close>, and a loop whose body may.\<close>

datatype 'a outcome = Returns 'a | Throws

fun try_fold :: "('a \<Rightarrow> 's \<Rightarrow> 's outcome) \<Rightarrow> 'a list \<Rightarrow> 's \<Rightarrow> 's outcome" where
  "try_fold body [] st = Returns st"
| "try_fold body (x # xs) st =
     (case body x st of Throws \<Rightarrow> Throws | Returns st' \<Rightarrow> try_fold body xs st')"

subsection \<open>The engine\<close>

text \<open>
  The records of an index (\<^verbatim>\<open>weight\<close>, \<^verbatim>\<open>count\<close>), of the collection (with
  \<^verbatim>\<open>keys\<close>) and of an expansion (with \<^verbatim>\<open>orig\<close>). The state: the fields of the engine
  (the own properties of \<^verbatim>\<open>collection\<close> and of \<^verbatim>\<open>keys\<close>; a value of the collection
  is a record or \<^verbatim>\<open>NaN\<close>, a value of \<^verbatim>\<open>keys\<close> a text), whether \<^verbatim>\<open>keys\<close> still
  inherits from \<^verbatim>\<open>Object.prototype\<close>, and whether \<^verbatim>\<open>Object.prototype\<close> has the
  property \<^verbatim>\<open>count\<close>.
\<close>

record index_rec =
  weight :: int
  count :: int

record word_entry = index_rec +
  keys :: "string list"

record expansion = index_rec +
  orig :: string

record jsse =
  size_jsse :: int
  collection :: "word_entry jsval obj"
  keys_jsse :: "string option obj"
  keys_proto :: bool
  proto_count :: bool

definition stop_list :: "string list" where
  "stop_list = [''at'', ''to'', ''we'', ''my'', ''as'', ''is'', ''in'', ''am'', ''I'', ''he'',
     ''she'', ''that'', ''the'', ''them'', ''a'']"

text \<open>\<^verbatim>\<open>new Jsse()\<close>, in a program that has not changed \<^verbatim>\<open>Object.prototype\<close>.\<close>

definition new_jsse :: jsse where
  "new_jsse = \<lparr>size_jsse = 0, collection = [], keys_jsse = [], keys_proto = True,
               proto_count = False\<rparr>"

text \<open>\<^verbatim>\<open>if (key)\<close>: a key that is absent or the empty string is not a key.\<close>

definition truthy :: "string option \<Rightarrow> bool" where
  "truthy key = (case key of None \<Rightarrow> False | Some k \<Rightarrow> k \<noteq> [])"

definition normalize_word :: "string \<Rightarrow> string" where
  "normalize_word word =
     (let w = trim (filter kept_char (toLowerCase word))
      in if indexOf stop_list w \<noteq> - 1 then [] else w)"

text \<open>
  \<^verbatim>\<open>_index\<close>. The loop carries the own properties of \<^verbatim>\<open>index\<close> and whether
  \<^verbatim>\<open>Object.prototype\<close> has the property \<^verbatim>\<open>count\<close>. \<^verbatim>\<open>if (index[word])\<close> reads an
  own record, or else what \<^verbatim>\<open>index\<close> inherits. For a name of \<^verbatim>\<open>Object.prototype\<close>
  that is truthy, and \<^verbatim>\<open>index[word].count++\<close> sets the property \<^verbatim>\<open>count\<close> of the
  inherited value to \<^verbatim>\<open>NaN\<close>: of a function, which nothing else reads, or, for the word
  \<^verbatim>\<open>__proto__\<close>, of \<^verbatim>\<open>Object.prototype\<close>. No entry is made for such a word.
  Otherwise the inherited value is \<^verbatim>\<open>undefined\<close> or (for \<^verbatim>\<open>count\<close>) \<^verbatim>\<open>NaN\<close>, both
  falsy, and the word gets a new record.
\<close>

fun index_loop :: "string list \<Rightarrow> index_rec obj \<times> bool \<Rightarrow> index_rec obj \<times> bool" where
  "index_loop [] st = st"
| "index_loop (w # ws) (index, pc) =
     (let word = normalize_word w in
      if length word < 2 then index_loop ws (index, pc)
      else (case obj_get index word of
              Some r \<Rightarrow> index_loop ws (obj_set word (r\<lparr>count := count r + 1\<rparr>) index, pc)
            | None \<Rightarrow>
                if word \<in> set proto_names
                then index_loop ws (index, pc \<or> word = ''__proto__'')
                else index_loop ws
                       (obj_set word \<lparr>weight = int (length word), count = 1\<rparr> index, pc)))"

definition jsse_index :: "string option \<Rightarrow> bool \<Rightarrow> index_rec obj \<times> bool" where
  "jsse_index str pc =
     (case str of
        None \<Rightarrow> ([], pc)
      | Some s \<Rightarrow> if s = [] then ([], pc) else index_loop (split_space s) ([], pc))"

text \<open>
  \<^verbatim>\<open>_merge\<close>: one round of its loop, for a name that \<^verbatim>\<open>for (var word in index)\<close>
  visits and the value of \<^verbatim>\<open>index[word]\<close>. The names of an index are not names of
  \<^verbatim>\<open>Object.prototype\<close> (lemma \<open>jsse_index_names\<close>), so \<^verbatim>\<open>collection[word]\<close> is an own
  value of the collection or falsy. In the second branch the value of \<^verbatim>\<open>index[word]\<close>
  is stored; when it is \<^verbatim>\<open>NaN\<close>, the assignment of \<^verbatim>\<open>keys\<close> to it does nothing.
\<close>

definition merge_word :: "string option \<Rightarrow> string \<times> index_rec jsval \<Rightarrow> jsse \<Rightarrow> jsse" where
  "merge_word key p s =
     (case obj_get (collection s) (fst p) of
        Some (Obj e) \<Rightarrow>
          s\<lparr>collection :=
              obj_set (fst p)
                (Obj (e\<lparr>count := count e + 1,
                        keys := (if truthy key then keys e @ [the key] else keys e)\<rparr>))
                (collection s)\<rparr>
      | _ \<Rightarrow>
          s\<lparr>collection :=
              obj_set (fst p)
                (case snd p of
                   Obj r \<Rightarrow>
                     Obj \<lparr>weight = weight r, count = count r,
                          keys = (if truthy key then [the key] else [])\<rparr>
                 | NaN \<Rightarrow> NaN)
                (collection s),
            size_jsse := size_jsse s + 1\<rparr>)"

definition jsse_merge :: "index_rec obj \<Rightarrow> string option \<Rightarrow> jsse \<Rightarrow> jsse" where
  "jsse_merge index key s = fold (merge_word key) (for_in_entries (proto_count s) index) s"

text \<open>\<^verbatim>\<open>_remove\<close>: one round of its loop, for a name that the loop visits.\<close>

definition remove_word :: "string option \<Rightarrow> string \<Rightarrow> jsse \<Rightarrow> jsse" where
  "remove_word key word s =
     (case obj_get (collection s) word of
        Some (Obj e) \<Rightarrow>
          (let e' = e\<lparr>count := count e - 1,
                       keys := (if truthy key then removeFromArray (keys e) (the key)
                                else keys e)\<rparr>
           in if count e' = 0
              then s\<lparr>collection := obj_delete word (collection s),
                     size_jsse := size_jsse s - 1\<rparr>
              else s\<lparr>collection := obj_set word (Obj e') (collection s)\<rparr>)
      | _ \<Rightarrow> s)"

definition jsse_remove :: "index_rec obj \<Rightarrow> string option \<Rightarrow> jsse \<Rightarrow> jsse" where
  "jsse_remove index key s = fold (remove_word key) (for_in (proto_count s) index) s"

text \<open>
  \<^verbatim>\<open>this.keys[key] = str\<close>. For the key \<^verbatim>\<open>__proto__\<close>, while \<^verbatim>\<open>keys\<close> inherits from
  \<^verbatim>\<open>Object.prototype\<close> and has no such property of its own, the assignment calls the
  inherited setter: a string is ignored, and \<^verbatim>\<open>null\<close> takes the prototype away from
  \<^verbatim>\<open>keys\<close>. Every other assignment creates or sets an own property.
\<close>

definition keys_assign :: "string \<Rightarrow> string option \<Rightarrow> jsse \<Rightarrow> jsse" where
  "keys_assign key str s =
     (if key = ''__proto__'' \<and> keys_proto s \<and> obj_get (keys_jsse s) key = None
      then (if str = None then s\<lparr>keys_proto := False\<rparr> else s)
      else s\<lparr>keys_jsse := obj_set key str (keys_jsse s)\<rparr>)"

definition add :: "string option \<Rightarrow> string option \<Rightarrow> jsse \<Rightarrow> jsse" where
  "add str key s =
     (let s1 = (if truthy key then keys_assign (the key) str s else s);
          (index, pc) = jsse_index str (proto_count s1)
      in jsse_merge index key (s1\<lparr>proto_count := pc\<rparr>))"

definition remove :: "string option \<Rightarrow> string option \<Rightarrow> jsse \<Rightarrow> jsse" where
  "remove str key s =
     (if size_jsse s = 0 then s
      else (let (index, pc) = jsse_index str (proto_count s);
                s' = jsse_remove index key (s\<lparr>proto_count := pc\<rparr>)
            in if truthy key then s'\<lparr>keys_jsse := obj_delete (the key) (keys_jsse s')\<rparr>
               else s'))"

definition clear :: "jsse \<Rightarrow> jsse" where
  "clear s = s\<lparr>collection := [], size_jsse := 0\<rparr>"

definition getWords :: "jsse \<Rightarrow> string list" where
  "getWords s = for_in (proto_count s) (collection s)"

text \<open>
  \<^verbatim>\<open>_nb_keywords_found(key, words)\<close> counts the occurrences of a word in the text stored
  under the key with
  \<^verbatim>\<open>while (string.indexOf(word,start) > -1) { nb_found++; start = ... + word.length; }\<close>.
  The source enters the loop with a non-empty word only (an empty one is skipped by
  \<^verbatim>\<open>continue\<close>); the first branch of \<open>count_loop\<close> stands for that guard.
\<close>

lemma str_indexOf_loop_bounds:
  "word \<noteq> [] \<Longrightarrow> - 1 < str_indexOf_loop s word i \<Longrightarrow>
     int i \<le> str_indexOf_loop s word i \<and> str_indexOf_loop s word i + int (length word) \<le> int i + int (length s)"
proof (induction s arbitrary: i)
  case Nil
  then show ?case by simp
next
  case (Cons c cs)
  show ?case
  proof (cases "take (length word) (c # cs) = word")
    case True
    have "length (take (length word) (c # cs)) \<le> length (c # cs)"
      by simp
    then have "length word \<le> length (c # cs)"
      by (simp only: True)
    with True show ?thesis by simp
  next
    case False
    with Cons.prems have "- 1 < str_indexOf_loop cs word (Suc i)" by simp
    from Cons.IH [OF Cons.prems(1) this] False show ?thesis by simp
  qed
qed

lemma str_indexOf_bounds:
  assumes "word \<noteq> []" and "- 1 < str_indexOf s word start"
  shows "int start \<le> str_indexOf s word start"
    and "str_indexOf s word start + int (length word) \<le> int (length s)"
    and "start < length s"
proof -
  let ?st = "min start (length s)"
  have pos: "- 1 < str_indexOf_loop (drop ?st s) word ?st"
    using assms(2) by (simp add: str_indexOf_def Let_def)
  have b: "int ?st \<le> str_indexOf_loop (drop ?st s) word ?st"
    "str_indexOf_loop (drop ?st s) word ?st + int (length word) \<le> int ?st + int (length (drop ?st s))"
    using str_indexOf_loop_bounds [OF assms(1) pos] by simp_all
  have lt: "start < length s"
  proof (rule ccontr)
    assume "\<not> start < length s"
    then have "drop ?st s = []" by simp
    with pos assms(1) show False by simp
  qed
  then have st: "?st = start" by simp
  show "start < length s" by (rule lt)
  show "int start \<le> str_indexOf s word start"
    using b(1) st by (simp add: str_indexOf_def Let_def)
  show "str_indexOf s word start + int (length word) \<le> int (length s)"
    using b(2) st lt by (simp add: str_indexOf_def Let_def)
qed

function count_loop :: "string \<Rightarrow> string \<Rightarrow> nat \<Rightarrow> int \<Rightarrow> int" where
  "count_loop string word start nb_found =
     (if word = [] then nb_found
      else if - 1 < str_indexOf string word start
      then count_loop string word
             (nat (str_indexOf string word start) + length word) (nb_found + 1)
      else nb_found)"
  by pat_completeness auto
termination
proof (relation "measure (\<lambda>(string, word, start, nb_found). length string - start)")
  show "wf (measure (\<lambda>(string, word, start, nb_found). length string - start))"
    by simp
next
  fix string word :: string and start :: nat and nb_found :: int
  assume w: "word \<noteq> []" and pos: "- 1 < str_indexOf string word start"
  have "0 < length word" using w by simp
  with str_indexOf_bounds [OF w pos]
  have "length string - (nat (str_indexOf string word start) + length word) < length string - start"
    by linarith
  then show "((string, word, nat (str_indexOf string word start) + length word, nb_found + 1),
              (string, word, start, nb_found))
             \<in> measure (\<lambda>(string, word, start, nb_found). length string - start)"
    by simp
qed

text \<open>
  \<^verbatim>\<open>_nb_keywords_found(key, words)\<close>. \<^verbatim>\<open>words.split(' ')\<close> raises a \<^verbatim>\<open>TypeError\<close>
  for the query \<^verbatim>\<open>null\<close>. \<^verbatim>\<open>this.keys[key]\<close> is the text stored under the key, or what
  \<^verbatim>\<open>keys\<close> inherits: a function or the prototype for a name of \<^verbatim>\<open>Object.prototype\<close>,
  else \<^verbatim>\<open>undefined\<close> or \<^verbatim>\<open>NaN\<close>. A text that is \<^verbatim>\<open>null\<close> or empty, \<^verbatim>\<open>undefined\<close>
  and \<^verbatim>\<open>NaN\<close> are falsy: the result is 0. Otherwise \<^verbatim>\<open>for (word in arr_words)\<close> runs.
  On an inherited value \<^verbatim>\<open>string.indexOf\<close> is not a function: the first word that is
  not empty raises a \<^verbatim>\<open>TypeError\<close>. When \<^verbatim>\<open>Object.prototype\<close> has the property
  \<^verbatim>\<open>count\<close>, the loop visits it after the words, and \<^verbatim>\<open>arr_words['count'].trim()\<close>
  raises a \<^verbatim>\<open>TypeError\<close>, since \<^verbatim>\<open>NaN\<close> has no method \<^verbatim>\<open>trim\<close>.
\<close>

definition jsse_nb_keywords_found :: "jsse \<Rightarrow> string \<Rightarrow> string option \<Rightarrow> int outcome" where
  "jsse_nb_keywords_found s key str =
     (case str of
        None \<Rightarrow> Throws
      | Some words \<Rightarrow>
          (case obj_get (keys_jsse s) key of
             Some None \<Rightarrow> Returns 0
           | Some (Some string) \<Rightarrow>
               if string = [] then Returns 0
               else if proto_count s then Throws
               else Returns
                      (let nb_found =
                             fold (\<lambda>w nb. let word = trim w in
                                      if word = [] then nb else count_loop string word 0 nb)
                               (split_space words) 0
                       in if words = string then nb_found * nb_found else nb_found)
           | None \<Rightarrow>
               if keys_proto s \<and> key \<in> set proto_names
               then (if proto_count s \<or> list_ex (\<lambda>w. trim w \<noteq> []) (split_space words)
                     then Throws else Returns 0)
               else Returns 0))"

text \<open>
  In \<^verbatim>\<open>match\<close> the scores are stored in an array, \<^verbatim>\<open>nb_keywords = []\<close>, under the
  document keys. An array keeps its elements (the properties named by an array index),
  its \<^verbatim>\<open>length\<close> and its other properties: assigning to an array index may raise the
  length, and assigning to \<^verbatim>\<open>length\<close> sets the length and drops the elements from that
  position on, and creates no property. Assigning a number to \<^verbatim>\<open>__proto__\<close> calls the
  inherited setter, which ignores it.
\<close>

record num_array =
  arr_length :: nat
  arr_props :: "int obj"

definition empty_array :: num_array where
  "empty_array = \<lparr>arr_length = 0, arr_props = []\<rparr>"

definition arr_assign :: "string \<Rightarrow> int \<Rightarrow> num_array \<Rightarrow> num_array" where
  "arr_assign key v a =
     (if key = ''length''
      then \<lparr>arr_length = nat v,
            arr_props = filter (\<lambda>p. \<not> (is_array_index (fst p) \<and> nat v \<le> dec_val (fst p)))
                          (arr_props a)\<rparr>
      else if key = ''__proto__'' then a
      else if is_array_index key
      then \<lparr>arr_length = max (arr_length a) (Suc (dec_val key)),
            arr_props = obj_set key v (arr_props a)\<rparr>
      else a\<lparr>arr_props := obj_set key v (arr_props a)\<rparr>)"

text \<open>
  \<^verbatim>\<open>_sort_assoc_array\<close>: the pairs \<^verbatim>\<open>{key, value}\<close> of the enumerable properties of the
  array, sorted by descending value (\<^verbatim>\<open>sort\<close> is stable since ECMAScript 2019). When
  \<^verbatim>\<open>Object.prototype\<close> has the property \<^verbatim>\<open>count\<close>, the array that \<^verbatim>\<open>match\<close> passes
  has a property \<^verbatim>\<open>count\<close> of its own (lemma \<open>scores_hold_count\<close>), so
  \<^verbatim>\<open>for (i in keys)\<close> visits own properties only.
\<close>

definition jsse_sort_assoc_array :: "num_array \<Rightarrow> (string \<times> int) list" where
  "jsse_sort_assoc_array a = sort_key (\<lambda>p. - snd p) (arr_props a)"

text \<open>
  \<^verbatim>\<open>_indexAgainst\<close>. The first loop copies what \<^verbatim>\<open>for (var word in index_tmp)\<close> visits,
  each record tagged with its own word: \<^verbatim>\<open>record.orig = word\<close> does nothing when the
  value is the inherited \<^verbatim>\<open>NaN\<close>. The second loop visits the names of the collection and,
  for each, the names of \<^verbatim>\<open>index_tmp\<close>: a name of the collection that starts with a name
  of \<^verbatim>\<open>index_tmp\<close> gets a new record tagged with that name.
\<close>

definition seed_index :: "(string \<times> index_rec jsval) list \<Rightarrow> expansion jsval obj" where
  "seed_index entries =
     fold (\<lambda>p index.
             obj_set (fst p)
               (case snd p of
                  Obj r \<Rightarrow> Obj \<lparr>weight = weight r, count = count r, orig = fst p\<rparr>
                | NaN \<Rightarrow> NaN)
               index)
       entries []"

definition expand_word :: "string list \<Rightarrow> string \<Rightarrow> expansion jsval obj \<Rightarrow> expansion jsval obj" where
  "expand_word partials word index =
     fold (\<lambda>partial index.
             if str_indexOf word partial 0 = 0
             then obj_set word (Obj \<lparr>weight = int (length partial), count = 1, orig = partial\<rparr>)
                    index
             else index)
       partials index"

definition jsse_indexAgainst :: "jsse \<Rightarrow> string option \<Rightarrow> expansion jsval obj \<times> bool" where
  "jsse_indexAgainst s str =
     (let (index_tmp, pc) = jsse_index str (proto_count s)
      in (fold (expand_word (for_in pc index_tmp)) (for_in pc (collection s))
            (seed_index (for_in_entries pc index_tmp)),
          pc))"

text \<open>
  The first loop of \<^verbatim>\<open>match\<close>: the number of names of the expansion that are their own
  tag. \<^verbatim>\<open>index[word].orig\<close> is \<^verbatim>\<open>undefined\<close> where the value is \<^verbatim>\<open>NaN\<close>.
\<close>

definition orig_of :: "expansion jsval \<Rightarrow> string option" where
  "orig_of v = (case v of Obj e \<Rightarrow> Some (orig e) | NaN \<Rightarrow> None)"

definition query_size :: "bool \<Rightarrow> expansion jsval obj \<Rightarrow> int" where
  "query_size pc index =
     int (length (filter (\<lambda>p. Some (fst p) = orig_of (snd p)) (for_in_values pc index)))"

text \<open>
  The second loop of \<^verbatim>\<open>match\<close>. \<^verbatim>\<open>for (var i in found.keys)\<close> visits the positions of
  the array and then, when \<^verbatim>\<open>Object.prototype\<close> has the property \<^verbatim>\<open>count\<close>, that name:
  \<^verbatim>\<open>found.keys['count']\<close> is \<^verbatim>\<open>NaN\<close>, which as a property name is \<^verbatim>\<open>'NaN'\<close>.

  \<^verbatim>\<open>if (keys[key])\<close> reads an array of \<^verbatim>\<open>keys\<close>, or what the fresh \<^verbatim>\<open>keys = {}\<close>
  inherits. For a key that is a name of \<^verbatim>\<open>Object.prototype\<close> that is a function or the
  prototype, both truthy, with no method \<^verbatim>\<open>push\<close>: the helper \<^verbatim>\<open>indexOf\<close> runs its
  own loop up to the \<^verbatim>\<open>length\<close> of the value, finds \<^verbatim>\<open>undefined\<close> at position 0 if
  there is one and nothing else, and unless it found the tag, \<^verbatim>\<open>keys[key].push(orig)\<close>
  raises a \<^verbatim>\<open>TypeError\<close>. Any other key that \<^verbatim>\<open>keys\<close> does not hold reads as
  \<^verbatim>\<open>undefined\<close> or \<^verbatim>\<open>NaN\<close> and gets a new array.
\<close>

definition found_keys :: "bool \<Rightarrow> word_entry \<Rightarrow> string list" where
  "found_keys pc found = keys found @ (if pc then [''NaN''] else [])"

definition note_key ::
  "string option \<Rightarrow> string \<Rightarrow> string option list obj \<Rightarrow> string option list obj outcome" where
  "note_key orig' key keys' =
     (case obj_get keys' key of
        Some arr \<Rightarrow>
          Returns (if indexOf arr orig' = - 1 then obj_set key (arr @ [orig']) keys' else keys')
      | None \<Rightarrow>
          if key \<in> set proto_names
          then (if orig' = None \<and> 0 < proto_length key then Returns keys' else Throws)
          else Returns (obj_set key [orig'] keys'))"

text \<open>
  One round of the second loop, for a name of the expansion and its value. The names of
  an expansion are names of an index or own names of the collection, so
  \<^verbatim>\<open>this.collection[word]\<close> is an own value of the collection or falsy.
\<close>

definition collect_step ::
  "jsse \<Rightarrow> string \<times> expansion jsval \<Rightarrow> string option list obj \<Rightarrow> string option list obj outcome"
where
  "collect_step s p keys' =
     (case obj_get (collection s) (fst p) of
        Some (Obj found) \<Rightarrow>
          try_fold (note_key (orig_of (snd p))) (found_keys (proto_count s) found) keys'
      | _ \<Rightarrow> Returns keys')"

definition collect_keys :: "jsse \<Rightarrow> expansion jsval obj \<Rightarrow> string option list obj outcome" where
  "collect_keys s index = try_fold (collect_step s) (for_in_values (proto_count s) index) []"

text \<open>One round of the scoring loop of the second branch of \<^verbatim>\<open>match\<close>.\<close>

definition score_step :: "jsse \<Rightarrow> string option \<Rightarrow> string \<Rightarrow> num_array \<Rightarrow> num_array outcome" where
  "score_step s str key a =
     (case jsse_nb_keywords_found s key str of
        Throws \<Rightarrow> Throws
      | Returns v \<Rightarrow> Returns (arr_assign key v a))"

text \<open>
  \<^verbatim>\<open>match(str, mode)\<close>: what the call returns (an array whose elements are keys or
  \<^verbatim>\<open>undefined\<close>) or that it throws, and the state after the call. The call assigns to no
  field of the engine; \<^verbatim>\<open>_index\<close>, run on the query, may give \<^verbatim>\<open>Object.prototype\<close>
  the property \<^verbatim>\<open>count\<close>, before any of the loops of \<^verbatim>\<open>match\<close>.

  In the first branch \<^verbatim>\<open>keys[key].length == size\<close> is false for the inherited
  \<^verbatim>\<open>count\<close>, whose value \<^verbatim>\<open>NaN\<close> has no length. In the second branch
  \<^verbatim>\<open>for (key in sorted_keys)\<close> visits the positions of the array and then the inherited
  \<^verbatim>\<open>count\<close>, for which \<^verbatim>\<open>sorted_keys[key].key\<close> is \<^verbatim>\<open>undefined\<close>.
\<close>

definition match ::
  "jsse \<Rightarrow> string option \<Rightarrow> string option \<Rightarrow> string option list outcome \<times> jsse" where
  "match s str mode =
     (let mode' = (if truthy mode then the mode else ''all'');
          (index, pc) = jsse_indexAgainst s str;
          s' = s\<lparr>proto_count := pc\<rparr>;
          size' = query_size pc index
      in (case collect_keys s' index of
            Throws \<Rightarrow> Throws
          | Returns keys' \<Rightarrow>
              if mode' = ''all''
              then Returns
                     (map (\<lambda>p. Some (fst p))
                        (filter (\<lambda>p. case snd p of
                                        Obj arr \<Rightarrow> int (length arr) = size'
                                      | NaN \<Rightarrow> False)
                           (for_in_entries pc keys')))
              else (case try_fold (score_step s' str) (for_in pc keys') empty_array of
                      Throws \<Rightarrow> Throws
                    | Returns nb_keywords \<Rightarrow>
                        Returns
                          (map (\<lambda>p. Some (fst p)) (jsse_sort_assoc_array nb_keywords)
                           @ (if pc then [None] else []))),
          s'))"

subsection \<open>Sequences of calls\<close>

text \<open>
  The calls a client can make on an engine, each followed by the next one whether it
  returned or threw.
\<close>

datatype operation =
  Add "string option" "string option"
| Remove "string option" "string option"
| Match "string option" "string option"
| Clear

fun apply_op :: "operation \<Rightarrow> jsse \<Rightarrow> jsse" where
  "apply_op (Add str key) s = add str key s"
| "apply_op (Remove str key) s = remove str key s"
| "apply_op (Match str mode) s = snd (match s str mode)"
| "apply_op Clear s = clear s"

definition run :: "operation list \<Rightarrow> jsse" where
  "run ops = fold apply_op ops new_jsse"

text \<open>
  What every state reached by such calls satisfies as long as \<^verbatim>\<open>Object.prototype\<close> has
  no property \<^verbatim>\<open>count\<close>: the words of the collection are pairwise different and stand
  in enumeration order, \<^verbatim>\<open>size\<close> counts them, every value is a record and every count
  is at least 1.
\<close>

definition key_le :: "string \<Rightarrow> string \<Rightarrow> bool" where
  "key_le k k' =
     (if is_array_index k then (if is_array_index k' then dec_val k \<le> dec_val k' else True)
      else \<not> is_array_index k')"

definition obj_ordered :: "'v obj \<Rightarrow> bool" where
  "obj_ordered ob = sorted_wrt key_le (map fst ob)"

definition wf_jsse :: "jsse \<Rightarrow> bool" where
  "wf_jsse s =
     (distinct (map fst (collection s)) \<and> obj_ordered (collection s)
      \<and> size_jsse s = int (length (collection s))
      \<and> list_all (\<lambda>p. case snd p of Obj e \<Rightarrow> 1 \<le> count e | NaN \<Rightarrow> False) (collection s))"

text \<open>
  Two conditions on the index of a text and a key, for the round trip of \<^verbatim>\<open>add\<close> and
  \<^verbatim>\<open>remove\<close>: every word of the index that is new to the collection occurs once in the
  text; and the key is neither in the KeyStore nor in the keys list of a word of the
  index.
\<close>

definition new_words_once :: "jsse \<Rightarrow> index_rec obj \<Rightarrow> bool" where
  "new_words_once s index =
     list_all (\<lambda>p. case obj_get (collection s) (fst p) of
                      None \<Rightarrow> count (snd p) = 1
                    | Some v \<Rightarrow> True)
       index"

definition key_unused :: "jsse \<Rightarrow> index_rec obj \<Rightarrow> string \<Rightarrow> bool" where
  "key_unused s index K =
     (obj_get (keys_jsse s) K = None
      \<and> list_all (\<lambda>p. case obj_get (collection s) (fst p) of
                         Some (Obj e) \<Rightarrow> K \<notin> set (keys e)
                       | _ \<Rightarrow> True)
          index)"

text \<open>
  Two conditions on an expansion of a query, as \<^verbatim>\<open>_indexAgainst\<close> builds it: every
  entry stems from the one query word \<open>P\<close>, which is among the names; and the entries
  that stem from themselves (\<^verbatim>\<open>word == index[word].orig\<close>, what \<^verbatim>\<open>match\<close> counts) are
  those of a set \<open>P\<close> of names.
\<close>

definition tagged :: "string \<Rightarrow> expansion jsval obj \<Rightarrow> bool" where
  "tagged P index =
     (distinct (map fst index) \<and> list_all (\<lambda>p. orig_of (snd p) = Some P) index
      \<and> P \<in> fst ` set index)"

definition seeded :: "string set \<Rightarrow> expansion jsval obj \<Rightarrow> bool" where
  "seeded P index =
     (distinct (map fst index) \<and> P \<subseteq> fst ` set index
      \<and> list_all (\<lambda>e. (fst e \<in> P) = (Some (fst e) = orig_of (snd e))) index)"

section \<open>Lemmas about dictionaries\<close>

lemma obj_insert_set: "set (obj_insert k v ob) = insert (k, v) (set ob)"
proof (induction ob)
  case Nil
  show ?case by simp
next
  case (Cons p ob)
  obtain a b where p: "p = (a, b)" by (cases p)
  show ?case
  proof (cases "goes_before k a")
    case True
    then show ?thesis by (simp add: p)
  next
    case False
    then show ?thesis using Cons.IH by (simp add: p insert_commute)
  qed
qed

lemma obj_insert_keys: "fst ` set (obj_insert k v ob) = insert k (fst ` set ob)"
  by (simp add: obj_insert_set)

lemma obj_insert_length: "length (obj_insert k v ob) = Suc (length ob)"
  by (induction ob) auto

lemma map_fst_update: "map fst (map (\<lambda>p. if fst p = k then (k, v) else p) ob) = map fst ob"
  by (induction ob) auto

lemma obj_insert_distinct:
  "k \<notin> fst ` set ob \<Longrightarrow> distinct (map fst ob) \<Longrightarrow> distinct (map fst (obj_insert k v ob))"
proof (induction ob)
  case Nil
  then show ?case by simp
next
  case (Cons p ob)
  obtain a b where p: "p = (a, b)" by (cases p)
  from Cons.prems have ka: "k \<noteq> a" and kob: "k \<notin> fst ` set ob"
    and aob: "a \<notin> fst ` set ob" and d: "distinct (map fst ob)"
    by (auto simp: p)
  show ?case
  proof (cases "goes_before k a")
    case True
    then show ?thesis using ka kob aob d by (simp add: p)
  next
    case False
    then show ?thesis using ka aob Cons.IH [OF kob d]
      by (simp add: p obj_insert_keys)
  qed
qed

lemma obj_insert_map_of:
  "map_of ob k = None \<Longrightarrow>
     map_of (obj_insert k v ob) k' = (if k' = k then Some v else map_of ob k')"
proof (induction ob arbitrary: k')
  case Nil
  then show ?case by simp
next
  case (Cons p ob)
  obtain a b where p: "p = (a, b)" by (cases p)
  from Cons.prems have ka: "k \<noteq> a" and n: "map_of ob k = None"
    by (auto simp: p split: if_splits)
  show ?case
  proof (cases "goes_before k a")
    case True
    then show ?thesis using ka by (simp add: p)
  next
    case False
    then show ?thesis using ka Cons.IH [OF n] by (simp add: p)
  qed
qed

lemma obj_get_None: "(obj_get ob k = None) = (k \<notin> fst ` set ob)"
  by (simp add: obj_get_def map_of_eq_None_iff)

lemma obj_update_map_of:
  "map_of (map (\<lambda>p. if fst p = k then (k, v) else p) ob) k' =
     (if k' = k then (case map_of ob k of None \<Rightarrow> None | Some u \<Rightarrow> Some v) else map_of ob k')"
proof (induction ob arbitrary: k')
  case Nil
  then show ?case by simp
next
  case (Cons p ob)
  obtain a b where p: "p = (a, b)" by (cases p)
  show ?case
  proof (cases "a = k")
    case True
    then show ?thesis using Cons.IH by (simp add: p)
  next
    case False
    then show ?thesis using Cons.IH by (simp add: p)
  qed
qed

lemma obj_get_set: "obj_get (obj_set k v ob) k' = (if k' = k then Some v else obj_get ob k')"
proof (cases "obj_get ob k")
  case None
  then show ?thesis by (simp add: obj_set_def obj_get_def obj_insert_map_of)
next
  case (Some u)
  then show ?thesis by (simp add: obj_set_def obj_get_def obj_update_map_of)
qed

lemma obj_set_keys: "fst ` set (obj_set k v ob) = insert k (fst ` set ob)"
proof (cases "obj_get ob k")
  case None
  then show ?thesis by (simp add: obj_set_def obj_insert_keys)
next
  case (Some u)
  then have "k \<in> fst ` set ob" using obj_get_None [of ob k] by auto
  then have "insert k (fst ` set ob) = fst ` set ob" by blast
  moreover have "fst ` set (map (\<lambda>p. if fst p = k then (k, v) else p) ob) = fst ` set ob"
  proof -
    have "fst ` set (map (\<lambda>p. if fst p = k then (k, v) else p) ob)
            = set (map fst (map (\<lambda>p. if fst p = k then (k, v) else p) ob))"
      by (rule list.set_map [symmetric])
    also have "\<dots> = set (map fst ob)" by (simp only: map_fst_update)
    also have "\<dots> = fst ` set ob" by (rule list.set_map)
    finally show ?thesis .
  qed
  ultimately show ?thesis using Some
    by (simp add: obj_set_def)
qed

lemma obj_set_distinct: "distinct (map fst ob) \<Longrightarrow> distinct (map fst (obj_set k v ob))"
proof (cases "obj_get ob k")
  case None
  assume "distinct (map fst ob)"
  with None show ?thesis using obj_get_None [of ob k] by (simp add: obj_set_def obj_insert_distinct)
next
  case (Some u)
  assume d: "distinct (map fst ob)"
  from d Some show ?thesis by (simp add: obj_set_def map_fst_update del: map_map)
qed

lemma obj_set_length:
  "length (obj_set k v ob) = (if obj_get ob k = None then Suc (length ob) else length ob)"
  by (cases "obj_get ob k") (simp_all add: obj_set_def obj_insert_length)

lemma obj_delete_distinct: "distinct (map fst ob) \<Longrightarrow> distinct (map fst (obj_delete k ob))"
  by (simp add: obj_delete_def distinct_map_filter)

lemma obj_delete_absent: "k \<notin> fst ` set ob \<Longrightarrow> obj_delete k ob = ob"
  by (induction ob) (auto simp: obj_delete_def)

lemma obj_delete_length:
  "distinct (map fst ob) \<Longrightarrow> obj_get ob k = Some v \<Longrightarrow> Suc (length (obj_delete k ob)) = length ob"
proof (induction ob)
  case Nil
  then show ?case by (simp add: obj_get_def)
next
  case (Cons p ob)
  show ?case
  proof (cases "fst p = k")
    case True
    with Cons.prems(1) have "k \<notin> fst ` set ob" by auto
    then have "obj_delete k ob = ob" by (rule obj_delete_absent)
    with True show ?thesis by (simp add: obj_delete_def)
  next
    case False
    with Cons.prems have "obj_get ob k = Some v" "distinct (map fst ob)"
      by (auto simp: obj_get_def)
    from Cons.IH [OF this(2) this(1)] False show ?thesis by (simp add: obj_delete_def)
  qed
qed

lemma obj_delete_keys: "fst ` set (obj_delete k ob) = fst ` set ob - {k}"
  by (auto simp: obj_delete_def)

lemma obj_get_delete: "obj_get (obj_delete k ob) k' = (if k' = k then None else obj_get ob k')"
  by (induction ob) (auto simp: obj_delete_def obj_get_def)

subsection \<open>Enumeration order\<close>

lemma goes_before_trans: "goes_before q a \<Longrightarrow> key_le a x \<Longrightarrow> goes_before q x"
  by (auto simp: goes_before_def key_le_def split: if_splits)

lemma goes_before_key_le: "goes_before k x \<Longrightarrow> key_le k x"
  by (auto simp: goes_before_def key_le_def split: if_splits)

lemma not_goes_before_key_le: "\<not> goes_before k a \<Longrightarrow> key_le a k"
  by (auto simp: goes_before_def key_le_def split: if_splits)

lemma obj_insert_ordered: "obj_ordered ob \<Longrightarrow> obj_ordered (obj_insert k v ob)"
proof (induction ob)
  case Nil
  then show ?case by (simp add: obj_ordered_def)
next
  case (Cons p ob)
  obtain a b where p: "p = (a, b)" by (cases p)
  from Cons.prems have tl: "obj_ordered ob" and hd: "\<forall>x\<in>fst ` set ob. key_le a x"
    by (auto simp: obj_ordered_def p)
  show ?case
  proof (cases "goes_before k a")
    case True
    then have "key_le k a" "\<forall>x\<in>fst ` set ob. key_le k x"
      using hd goes_before_trans goes_before_key_le by blast+
    then show ?thesis using True Cons.prems by (auto simp: obj_ordered_def p)
  next
    case False
    then have "key_le a k" by (rule not_goes_before_key_le)
    then have "\<forall>x\<in>fst ` set (obj_insert k v ob). key_le a x"
      using hd by (simp add: obj_insert_keys)
    then show ?thesis using False Cons.IH [OF tl] by (auto simp: obj_ordered_def p)
  qed
qed

lemma obj_set_ordered: "obj_ordered ob \<Longrightarrow> obj_ordered (obj_set k v ob)"
proof (cases "obj_get ob k")
  case None
  assume "obj_ordered ob"
  with None show ?thesis by (simp add: obj_set_def obj_insert_ordered)
next
  case (Some u)
  assume "obj_ordered ob"
  with Some show ?thesis
    by (simp add: obj_set_def obj_ordered_def map_fst_update del: map_map)
qed

lemma obj_delete_ordered: "obj_ordered ob \<Longrightarrow> obj_ordered (obj_delete k ob)"
proof -
  have "map fst (filter (\<lambda>p. fst p \<noteq> k) ob) = filter (\<lambda>x. x \<noteq> k) (map fst ob)"
    by (induction ob) auto
  then show "obj_ordered ob \<Longrightarrow> obj_ordered (obj_delete k ob)"
    by (simp add: obj_ordered_def obj_delete_def sorted_wrt_filter del: map_map)
qed

lemma obj_set_list_all:
  "list_all P ob \<Longrightarrow> P (k, v) \<Longrightarrow> list_all P (obj_set k v ob)"
proof (cases "obj_get ob k")
  case None
  assume "list_all P ob" "P (k, v)"
  with None show ?thesis by (simp add: obj_set_def list_all_iff obj_insert_set)
next
  case (Some u)
  assume "list_all P ob" "P (k, v)"
  with Some show ?thesis by (auto simp: obj_set_def list_all_iff)
qed

lemma obj_delete_list_all: "list_all P ob \<Longrightarrow> list_all P (obj_delete k ob)"
  by (simp add: obj_delete_def list_all_iff)

lemma obj_get_in_set: "obj_get ob k = Some v \<Longrightarrow> (k, v) \<in> set ob"
  by (simp add: obj_get_def map_of_SomeD)

subsection \<open>What \<^verbatim>\<open>removeFromArray\<close> computes\<close>

lemma removeFromArray_loop_eq:
  "n \<le> length xs \<Longrightarrow>
     removeFromArray_loop n xs item =
       (if item \<in> set (take n xs) then takeWhile (\<lambda>x. x \<noteq> item) xs else xs)"
proof (induction n arbitrary: xs)
  case 0
  then show ?case by simp
next
  case (Suc i)
  then have i: "i < length xs" by simp
  have split: "xs = take i xs @ (xs ! i) # drop (Suc i) xs"
    using i by (simp add: id_take_nth_drop [symmetric])
  have tk: "take (Suc i) xs = take i xs @ [xs ! i]"
    using i by (simp add: take_Suc_conv_app_nth)
  show ?case
  proof (cases "xs ! i = item")
    case True
    have len: "i \<le> length (take i xs)" using i by simp
    have "removeFromArray_loop (Suc i) xs item = removeFromArray_loop i (take i xs) item"
      using True i by simp
    also have "\<dots> = (if item \<in> set (take i xs)
                      then takeWhile (\<lambda>x. x \<noteq> item) (take i xs) else take i xs)"
      using Suc.IH [OF len] by simp
    also have "\<dots> = takeWhile (\<lambda>x. x \<noteq> item) xs"
    proof (cases "item \<in> set (take i xs)")
      case True
      then have "takeWhile (\<lambda>x. x \<noteq> item) (take i xs @ (xs ! i) # drop (Suc i) xs)
                  = takeWhile (\<lambda>x. x \<noteq> item) (take i xs)"
        by (intro takeWhile_append1) auto
      with True split show ?thesis by simp
    next
      case False
      then have "takeWhile (\<lambda>x. x \<noteq> item) (take i xs @ (xs ! i) # drop (Suc i) xs)
                  = take i xs @ takeWhile (\<lambda>x. x \<noteq> item) ((xs ! i) # drop (Suc i) xs)"
        by (intro takeWhile_append2) auto
      with False split \<open>xs ! i = item\<close> show ?thesis by simp
    qed
    finally show ?thesis using True tk by simp
  next
    case False
    have len: "i \<le> length xs" using i by simp
    have "removeFromArray_loop (Suc i) xs item = removeFromArray_loop i xs item"
      using False by simp
    with Suc.IH [OF len] False tk show ?thesis by simp
  qed
qed

lemma removeFromArray_eq: "removeFromArray xs item = takeWhile (\<lambda>x. x \<noteq> item) xs"
proof (cases "item \<in> set xs")
  case True
  then have "xs \<noteq> []" by auto
  with True show ?thesis by (simp add: removeFromArray_def removeFromArray_loop_eq)
next
  case False
  then have tw: "takeWhile (\<lambda>x. x \<noteq> item) xs = xs"
    by (induction xs) auto
  show ?thesis using False by (simp add: removeFromArray_def removeFromArray_loop_eq tw)
qed

lemma removeFromArray_last: "K \<notin> set ks \<Longrightarrow> removeFromArray (ks @ [K]) K = ks"
  by (induction ks) (auto simp: removeFromArray_eq)


subsection \<open>Undoing an assignment\<close>

lemma obj_delete_insert: "k \<notin> fst ` set ob \<Longrightarrow> obj_delete k (obj_insert k v ob) = ob"
proof (induction ob)
  case Nil
  then show ?case by (simp add: obj_delete_def)
next
  case (Cons p ob)
  obtain a b where p: "p = (a, b)" by (cases p)
  from Cons.prems have ka: "k \<noteq> a" and kob: "k \<notin> fst ` set ob" by (auto simp: p)
  have "obj_delete k (p # ob) = p # ob"
    using Cons.prems by (rule obj_delete_absent)
  then show ?case using ka Cons.IH [OF kob]
    by (cases "goes_before k a") (simp_all add: p obj_delete_def)
qed

lemma obj_update_same:
  "distinct (map fst ob) \<Longrightarrow> map_of ob k = Some v \<Longrightarrow>
     map (\<lambda>p. if fst p = k then (k, v) else p) ob = ob"
proof (induction ob)
  case Nil
  then show ?case by simp
next
  case (Cons p ob)
  obtain a b where p: "p = (a, b)" by (cases p)
  show ?case
  proof (cases "a = k")
    case True
    with Cons.prems have "k \<notin> fst ` set ob" "b = v" by (auto simp: p)
    then have "map (\<lambda>p. if fst p = k then (k, v) else p) ob = ob"
      by (intro map_idI) auto
    with True \<open>b = v\<close> show ?thesis by (simp add: p)
  next
    case False
    with Cons.prems have "distinct (map fst ob)" "map_of ob k = Some v" by (auto simp: p)
    from Cons.IH [OF this] False show ?thesis by (simp add: p)
  qed
qed

lemma obj_set_restore:
  assumes "distinct (map fst ob)" and "obj_get ob k = Some v"
  shows "obj_set k v (obj_set k u ob) = ob"
proof -
  have "obj_set k u ob = map (\<lambda>p. if fst p = k then (k, u) else p) ob"
    using assms(2) by (simp add: obj_set_def)
  moreover have "obj_get (obj_set k u ob) k = Some u" by (simp add: obj_get_set)
  ultimately have "obj_set k v (obj_set k u ob)
      = map (\<lambda>p. if fst p = k then (k, v) else p) (map (\<lambda>p. if fst p = k then (k, u) else p) ob)"
    by (simp add: obj_set_def)
  also have "\<dots> = map (\<lambda>p. if fst p = k then (k, v) else p) ob"
    by (induction ob) auto
  also have "\<dots> = ob"
    using assms by (simp add: obj_update_same obj_get_def)
  finally show ?thesis .
qed

subsection \<open>Assignments and deletions under different names commute\<close>

lemma obj_insert_update:
  "p \<noteq> q \<Longrightarrow>
     map (\<lambda>e. if fst e = p then (p, x) else e) (obj_insert q y ob)
       = obj_insert q y (map (\<lambda>e. if fst e = p then (p, x) else e) ob)"
proof (induction ob)
  case Nil
  then show ?case by simp
next
  case (Cons e ob)
  obtain a b where e: "e = (a, b)" by (cases e)
  show ?case
    using Cons by (cases "goes_before q a"; cases "a = p") (simp_all add: e)
qed

lemma obj_update_update:
  "p \<noteq> q \<Longrightarrow>
     map (\<lambda>e. if fst e = p then (p, x) else e) (map (\<lambda>e. if fst e = q then (q, y) else e) ob)
       = map (\<lambda>e. if fst e = q then (q, y) else e) (map (\<lambda>e. if fst e = p then (p, x) else e) ob)"
  by (induction ob) auto

lemma obj_set_commute:
  assumes "p \<noteq> q" and "obj_get ob p = Some u"
  shows "obj_set p x (obj_set q y ob) = obj_set q y (obj_set p x ob)"
proof -
  have l: "obj_get (obj_set q y ob) p = Some u" using assms by (simp add: obj_get_set)
  have r: "obj_get (obj_set p x ob) q = obj_get ob q" using assms by (simp add: obj_get_set)
  show ?thesis
  proof (cases "obj_get ob q")
    case None
    then show ?thesis using assms l r
      by (simp add: obj_set_def obj_insert_update)
  next
    case (Some w)
    then show ?thesis using assms l r
      by (simp add: obj_set_def obj_update_update)
  qed
qed

lemma obj_insert_head:
  "(case ob of [] \<Rightarrow> True | e # rest \<Rightarrow> goes_before q (fst e)) \<Longrightarrow> obj_insert q y ob = (q, y) # ob"
  by (cases ob) auto

lemma obj_delete_insert_commute:
  "p \<noteq> q \<Longrightarrow> obj_ordered ob \<Longrightarrow>
     obj_delete p (obj_insert q y ob) = obj_insert q y (obj_delete p ob)"
proof (induction ob)
  case Nil
  then show ?case by (simp add: obj_delete_def)
next
  case (Cons e ob)
  obtain a b where e: "e = (a, b)" by (cases e)
  from Cons.prems have tl: "obj_ordered ob" and hd: "\<forall>x\<in>fst ` set ob. key_le a x"
    by (auto simp: obj_ordered_def e)
  show ?case
  proof (cases "goes_before q a")
    case True
    show ?thesis
    proof (cases "a = p")
      case False
      with True Cons.prems(1) show ?thesis by (simp add: e obj_delete_def)
    next
      case ap: True
      have "case obj_delete p ob of [] \<Rightarrow> True | e # rest \<Rightarrow> goes_before q (fst e)"
      proof (cases "obj_delete p ob")
        case Nil
        then show ?thesis by simp
      next
        case (Cons c cs)
        then have "c \<in> set (obj_delete p ob)" by simp
        then have "c \<in> set ob" by (simp add: obj_delete_def)
        then have "key_le a (fst c)" using hd by auto
        with True have "goes_before q (fst c)" by (rule goes_before_trans)
        with Cons show ?thesis by simp
      qed
      then have "obj_insert q y (obj_delete p ob) = (q, y) # obj_delete p ob"
        by (rule obj_insert_head)
      with True ap Cons.prems(1) show ?thesis by (simp add: e obj_delete_def)
    qed
  next
    case False
    with Cons.IH [OF Cons.prems(1) tl] show ?thesis
      by (cases "a = p") (simp_all add: e obj_delete_def)
  qed
qed

lemma obj_delete_update:
  "p \<noteq> q \<Longrightarrow>
     obj_delete p (map (\<lambda>e. if fst e = q then (q, y) else e) ob)
       = map (\<lambda>e. if fst e = q then (q, y) else e) (obj_delete p ob)"
  by (induction ob) (auto simp: obj_delete_def)

lemma obj_delete_set_commute:
  assumes "p \<noteq> q" and "obj_ordered ob"
  shows "obj_delete p (obj_set q y ob) = obj_set q y (obj_delete p ob)"
proof -
  have r: "obj_get (obj_delete p ob) q = obj_get ob q" using assms by (simp add: obj_get_delete)
  show ?thesis
    using assms r
    by (cases "obj_get ob q")
       (simp_all add: obj_set_def obj_delete_insert_commute obj_delete_update)
qed

subsection \<open>Enumeration without inherited names\<close>

lemma for_in_values_plain: "for_in_values False ob = ob"
  by (simp add: for_in_values_def)

lemma for_in_entries_plain: "for_in_entries False ob = map (\<lambda>p. (fst p, Obj (snd p))) ob"
  by (simp add: for_in_entries_def for_in_values_def)

lemma for_in_plain: "for_in False ob = map fst ob"
  by (simp add: for_in_def)

subsection \<open>The index of a text\<close>

lemma index_loop_props:
  assumes "distinct (map fst index)" and "list_all (\<lambda>p. 1 \<le> count (snd p)) index"
    and "list_all (\<lambda>p. fst p \<notin> set proto_names) index"
  shows "distinct (map fst (fst (index_loop ws (index, pc))))
    \<and> list_all (\<lambda>p. 1 \<le> count (snd p)) (fst (index_loop ws (index, pc)))
    \<and> list_all (\<lambda>p. fst p \<notin> set proto_names) (fst (index_loop ws (index, pc)))
    \<and> (pc \<longrightarrow> snd (index_loop ws (index, pc)))"
  using assms
proof (induction ws arbitrary: index pc)
  case Nil
  then show ?case by simp
next
  case (Cons w ws)
  let ?word = "normalize_word w"
  show ?case
  proof (cases "length ?word < 2")
    case True
    then show ?thesis using Cons.IH [OF Cons.prems, of pc] by (simp add: Let_def)
  next
    case False
    show ?thesis
    proof (cases "obj_get index ?word")
      case None
      show ?thesis
      proof (cases "?word \<in> set proto_names")
        case True
        from Cons.IH [OF Cons.prems, of "pc \<or> ?word = ''__proto__''"] show ?thesis
          using False None True by (simp add: Let_def)
      next
        case notin: False
        let ?i = "obj_set ?word \<lparr>weight = int (length ?word), count = 1\<rparr> index"
        have "distinct (map fst ?i)" "list_all (\<lambda>p. 1 \<le> count (snd p)) ?i"
          "list_all (\<lambda>p. fst p \<notin> set proto_names) ?i"
          using Cons.prems notin by (simp_all add: obj_set_distinct obj_set_list_all)
        from Cons.IH [OF this, of pc] show ?thesis using False None notin by (simp add: Let_def)
      qed
    next
      case (Some r)
      let ?i = "obj_set ?word (r\<lparr>count := count r + 1\<rparr>) index"
      have m: "(?word, r) \<in> set index" using Some by (rule obj_get_in_set)
      have "1 \<le> count r" using m Cons.prems(2) by (auto simp: list_all_iff)
      moreover have "?word \<notin> set proto_names" using m Cons.prems(3) by (auto simp: list_all_iff)
      ultimately have "distinct (map fst ?i)" "list_all (\<lambda>p. 1 \<le> count (snd p)) ?i"
        "list_all (\<lambda>p. fst p \<notin> set proto_names) ?i"
        using Cons.prems by (simp_all add: obj_set_distinct obj_set_list_all)
      from Cons.IH [OF this, of pc] show ?thesis using False Some by (simp add: Let_def)
    qed
  qed
qed

lemma jsse_index_props:
  "distinct (map fst (fst (jsse_index str pc)))
   \<and> list_all (\<lambda>p. 1 \<le> count (snd p)) (fst (jsse_index str pc))
   \<and> list_all (\<lambda>p. fst p \<notin> set proto_names) (fst (jsse_index str pc))
   \<and> (pc \<longrightarrow> snd (jsse_index str pc))"
  using index_loop_props [of "[]"] by (simp add: jsse_index_def split: option.splits)

lemma jsse_index_distinct: "distinct (map fst (fst (jsse_index str pc)))"
  using jsse_index_props [of str pc] by simp

lemma jsse_index_counts: "list_all (\<lambda>p. 1 \<le> count (snd p)) (fst (jsse_index str pc))"
  using jsse_index_props [of str pc] by simp

text \<open>The names of an index are not names of \<^verbatim>\<open>Object.prototype\<close>.\<close>

lemma jsse_index_names: "w \<in> fst ` set (fst (jsse_index str pc)) \<Longrightarrow> w \<notin> set proto_names"
  using jsse_index_props [of str pc] by (auto simp: list_all_iff)

text \<open>\<^verbatim>\<open>Object.prototype\<close> keeps the property \<^verbatim>\<open>count\<close> once it has it.\<close>

lemma jsse_index_keeps: "pc \<Longrightarrow> snd (jsse_index str pc)"
  using jsse_index_props [of str pc] by simp

lemma jsse_index_clean: "jsse_index str pc = (index, False) \<Longrightarrow> pc = False"
  using jsse_index_keeps [of pc str] by auto

text \<open>The index does not depend on \<^verbatim>\<open>Object.prototype\<close>.\<close>

lemma index_loop_flag:
  "index_loop ws (index, pc)
     = (fst (index_loop ws (index, False)), pc \<or> snd (index_loop ws (index, False)))"
proof (induction ws arbitrary: index pc)
  case Nil
  show ?case by simp
next
  case (Cons w ws)
  show ?case
    using Cons [of _ pc] Cons [of index "pc \<or> normalize_word w = ''__proto__''"]
      Cons [of index "normalize_word w = ''__proto__''"]
    by (auto simp: Let_def split: option.splits)
qed

lemma jsse_index_flag:
  "jsse_index str pc = (fst (jsse_index str False), pc \<or> snd (jsse_index str False))"
  using index_loop_flag [of _ "[]" pc] by (simp add: jsse_index_def split: option.splits)

subsection \<open>Texts without words\<close>

lemma jsse_index_empty: "str = None \<or> str = Some [] \<Longrightarrow> jsse_index str pc = ([], pc)"
  by (auto simp: jsse_index_def)

section \<open>The invariant of the reachable states\<close>

lemma wf_jsse_value:
  assumes "wf_jsse s" and "obj_get (collection s) w = Some v"
  obtains e where "v = Obj e" and "1 \<le> count e"
proof -
  have "(w, v) \<in> set (collection s)" using assms(2) by (rule obj_get_in_set)
  with assms(1) have "case v of Obj e \<Rightarrow> 1 \<le> count e | NaN \<Rightarrow> False"
    by (auto simp: wf_jsse_def list_all_iff)
  then show ?thesis using that by (cases v) simp_all
qed

lemma merge_word_wf:
  assumes "wf_jsse s" and "1 \<le> count r"
  shows "wf_jsse (merge_word key (w, Obj r) s)"
proof (cases "obj_get (collection s) w")
  case None
  then show ?thesis using assms
    by (simp add: merge_word_def wf_jsse_def obj_set_distinct obj_set_ordered obj_set_length
        obj_set_list_all)
next
  case (Some v)
  from assms(1) Some obtain e where v: "v = Obj e" and c: "1 \<le> count e" by (rule wf_jsse_value)
  then show ?thesis using Some assms
    by (simp add: merge_word_def wf_jsse_def obj_set_distinct obj_set_ordered obj_set_length
        obj_set_list_all)
qed

lemma remove_word_wf:
  assumes "wf_jsse s"
  shows "wf_jsse (remove_word key w s)"
proof (cases "obj_get (collection s) w")
  case None
  then show ?thesis using assms by (simp add: remove_word_def)
next
  case (Some v)
  from assms Some obtain e where v: "v = Obj e" and c: "1 \<le> count e" by (rule wf_jsse_value)
  have d: "distinct (map fst (collection s))" using assms by (simp add: wf_jsse_def)
  show ?thesis
  proof (cases "count e = 1")
    case True
    then show ?thesis using Some v assms obj_delete_length [OF d Some]
      by (simp add: remove_word_def wf_jsse_def Let_def obj_delete_distinct obj_delete_ordered
          obj_delete_list_all)
  next
    case False
    with c have "1 \<le> count e - 1" by simp
    then show ?thesis using False Some v assms
      by (simp add: remove_word_def wf_jsse_def Let_def obj_set_distinct obj_set_ordered
          obj_set_length obj_set_list_all)
  qed
qed

lemma fold_merge_word_wf:
  "wf_jsse s \<Longrightarrow> list_all (\<lambda>p. 1 \<le> count (snd p)) index \<Longrightarrow>
     wf_jsse (fold (merge_word key) (map (\<lambda>p. (fst p, Obj (snd p))) index) s)"
  by (induction index arbitrary: s) (simp_all add: merge_word_wf)

lemma fold_remove_word_wf: "wf_jsse s \<Longrightarrow> wf_jsse (fold (remove_word key) ws s)"
  by (induction ws arbitrary: s) (simp_all add: remove_word_wf)

lemma jsse_merge_plain:
  "\<not> proto_count s \<Longrightarrow>
     jsse_merge index key s = fold (merge_word key) (map (\<lambda>p. (fst p, Obj (snd p))) index) s"
  by (simp add: jsse_merge_def for_in_entries_plain)

lemma jsse_remove_plain:
  "\<not> proto_count s \<Longrightarrow> jsse_remove index key s = fold (remove_word key) (map fst index) s"
  by (simp add: jsse_remove_def for_in_plain)

lemma merge_word_fields:
  "keys_jsse (merge_word key p s) = keys_jsse s \<and> keys_proto (merge_word key p s) = keys_proto s
   \<and> proto_count (merge_word key p s) = proto_count s"
  by (simp add: merge_word_def split: option.splits jsval.splits)

lemma remove_word_fields:
  "keys_jsse (remove_word key w s) = keys_jsse s \<and> keys_proto (remove_word key w s) = keys_proto s
   \<and> proto_count (remove_word key w s) = proto_count s"
  by (simp add: remove_word_def Let_def split: option.splits jsval.splits)

lemma fold_merge_word_fields:
  "keys_jsse (fold (merge_word key) ps s) = keys_jsse s
   \<and> keys_proto (fold (merge_word key) ps s) = keys_proto s
   \<and> proto_count (fold (merge_word key) ps s) = proto_count s"
  by (induction ps arbitrary: s) (simp_all add: merge_word_fields)

lemma fold_remove_word_fields:
  "keys_jsse (fold (remove_word key) ws s) = keys_jsse s
   \<and> keys_proto (fold (remove_word key) ws s) = keys_proto s
   \<and> proto_count (fold (remove_word key) ws s) = proto_count s"
  by (induction ws arbitrary: s) (simp_all add: remove_word_fields)

lemma keys_assign_fields:
  "collection (keys_assign k str s) = collection s \<and> size_jsse (keys_assign k str s) = size_jsse s
   \<and> proto_count (keys_assign k str s) = proto_count s"
  by (simp add: keys_assign_def)

text \<open>What a call does to \<^verbatim>\<open>Object.prototype\<close>.\<close>

lemma add_proto_count: "proto_count (add str key s) = snd (jsse_index str (proto_count s))"
  by (simp add: add_def Let_def jsse_merge_def fold_merge_word_fields keys_assign_fields
      split: prod.splits)

lemma remove_proto_count:
  "proto_count (remove str key s)
     = (if size_jsse s = 0 then proto_count s else snd (jsse_index str (proto_count s)))"
  by (simp add: remove_def Let_def jsse_remove_def fold_remove_word_fields split: prod.splits)

lemma match_state: "snd (match s str mode) = s\<lparr>proto_count := snd (jsse_index str (proto_count s))\<rparr>"
  by (simp add: match_def jsse_indexAgainst_def Let_def split: prod.splits)

lemma apply_op_keeps: "proto_count s \<Longrightarrow> proto_count (apply_op op s)"
  by (cases op)
    (simp_all add: add_proto_count remove_proto_count match_state jsse_index_keeps clear_def)

lemma wf_jsse_other_fields:
  "wf_jsse (s\<lparr>keys_jsse := ks\<rparr>) = wf_jsse s" "wf_jsse (s\<lparr>keys_proto := b\<rparr>) = wf_jsse s"
  "wf_jsse (s\<lparr>proto_count := b\<rparr>) = wf_jsse s"
  by (simp_all add: wf_jsse_def)

lemma keys_assign_wf: "wf_jsse (keys_assign k str s) = wf_jsse s"
  by (simp add: keys_assign_def wf_jsse_other_fields)

lemma add_wf:
  assumes "\<not> proto_count (add str key s)" and "wf_jsse s"
  shows "wf_jsse (add str key s)"
proof -
  obtain index pc where i: "jsse_index str (proto_count s) = (index, pc)"
    by (cases "jsse_index str (proto_count s)")
  from assms(1) i have pc: "pc = False" by (simp add: add_proto_count)
  have c: "list_all (\<lambda>p. 1 \<le> count (snd p)) index"
    using jsse_index_counts [of str "proto_count s"] i by simp
  let ?s1 = "if truthy key then keys_assign (the key) str s else s"
  have "wf_jsse (?s1\<lparr>proto_count := False\<rparr>)"
    using assms(2) by (simp add: wf_jsse_other_fields keys_assign_wf)
  then have "wf_jsse (fold (merge_word key) (map (\<lambda>p. (fst p, Obj (snd p))) index)
                        (?s1\<lparr>proto_count := False\<rparr>))"
    using c by (rule fold_merge_word_wf)
  then show ?thesis
    using i pc
    by (cases "truthy key") (simp_all add: add_def Let_def keys_assign_fields jsse_merge_plain)
qed

lemma remove_wf:
  assumes "wf_jsse s"
  shows "wf_jsse (remove str key s)"
  using assms
  by (simp add: remove_def Let_def jsse_remove_def fold_remove_word_wf wf_jsse_other_fields
      split: prod.splits)

lemma clear_wf: "wf_jsse (clear s)"
  by (simp add: clear_def wf_jsse_def obj_ordered_def)

lemma new_jsse_wf: "wf_jsse new_jsse"
  by (simp add: new_jsse_def wf_jsse_def obj_ordered_def)

lemma apply_op_wf:
  assumes "\<not> proto_count (apply_op op s)" and "wf_jsse s"
  shows "wf_jsse (apply_op op s)"
  using assms
  by (cases op) (simp_all add: add_wf remove_wf clear_wf match_state wf_jsse_other_fields)

lemma fold_apply_op_wf:
  "\<not> proto_count (fold apply_op ops s) \<Longrightarrow> wf_jsse s \<Longrightarrow> wf_jsse (fold apply_op ops s)"
proof (induction ops arbitrary: s)
  case Nil
  then show ?case by simp
next
  case (Cons op ops)
  have keeps: "proto_count t \<Longrightarrow> proto_count (fold apply_op ops t)" for t
    by (induction ops arbitrary: t) (simp_all add: apply_op_keeps)
  from Cons.prems(1) keeps [of "apply_op op s"] have "\<not> proto_count (apply_op op s)" by auto
  then have "wf_jsse (apply_op op s)" using Cons.prems(2) by (rule apply_op_wf)
  with Cons.IH [of "apply_op op s"] Cons.prems(1) show ?case by simp
qed

lemma run_wf: "\<not> proto_count (run ops) \<Longrightarrow> wf_jsse (run ops)"
  unfolding run_def by (rule fold_apply_op_wf) (simp_all add: new_jsse_wf)

section \<open>Adding and removing a text\<close>

subsection \<open>Merging and removing one index\<close>

lemma wf_jsse_distinct: "wf_jsse s \<Longrightarrow> distinct (map fst (collection s))"
  by (simp add: wf_jsse_def)

lemma wf_jsse_ordered: "wf_jsse s \<Longrightarrow> obj_ordered (collection s)"
  by (simp add: wf_jsse_def)

lemma merge_remove_word:
  assumes wf: "wf_jsse s"
    and once: "obj_get (collection s) w = None \<Longrightarrow> count r = 1"
    and unused: "truthy key \<Longrightarrow>
      (case obj_get (collection s) w of Some (Obj e) \<Rightarrow> the key \<notin> set (keys e) | _ \<Rightarrow> True)"
  shows "remove_word key w (merge_word key (w, Obj r) s) = s"
proof (cases "obj_get (collection s) w")
  case None
  then have c: "count r = 1" by (rule once)
  have "w \<notin> fst ` set (collection s)" using None by (simp add: obj_get_None)
  then have "obj_delete w (obj_insert w v (collection s)) = collection s" for v
    by (rule obj_delete_insert)
  then have "obj_delete w (obj_set w v (collection s)) = collection s" for v
    using None by (simp add: obj_set_def)
  then show ?thesis using None c
    by (simp add: merge_word_def remove_word_def obj_get_set Let_def)
next
  case (Some v)
  from wf Some obtain e where v: "v = Obj e" and c: "1 \<le> count e" by (rule wf_jsse_value)
  have k: "truthy key \<Longrightarrow> removeFromArray (keys e @ [the key]) (the key) = keys e"
    using unused Some v by (simp add: removeFromArray_last)
  have "obj_set w (Obj e) (obj_set w u (collection s)) = collection s" for u
    using wf_jsse_distinct [OF wf] Some [unfolded v] by (rule obj_set_restore)
  then show ?thesis using Some v c k
    by (simp add: merge_word_def remove_word_def obj_get_set Let_def)
qed

lemma remove_merge_commute:
  assumes wf: "wf_jsse s" and ne: "w \<noteq> w'"
  shows "remove_word key w (merge_word key (w', Obj r) s)
          = merge_word key (w', Obj r) (remove_word key w s)"
proof (cases "obj_get (collection s) w")
  case None
  then have "obj_get (collection (merge_word key (w', Obj r) s)) w = None"
    using ne by (simp add: merge_word_def obj_get_set split: option.splits jsval.splits)
  with None show ?thesis by (simp add: remove_word_def)
next
  case (Some v)
  from wf Some obtain e where v: "v = Obj e" by (rule wf_jsse_value)
  have ord: "obj_ordered (collection s)" using wf by (rule wf_jsse_ordered)
  have d: "obj_delete w (obj_set w' y (collection s))
            = obj_set w' y (obj_delete w (collection s))" for y
    using ne ord by (rule obj_delete_set_commute)
  have c: "obj_set w x (obj_set w' y (collection s))
            = obj_set w' y (obj_set w x (collection s))" for x y
    using ne Some by (rule obj_set_commute)
  show ?thesis
  proof (cases "obj_get (collection s) w'")
    case None
    then show ?thesis using Some v ne d c
      by (simp add: merge_word_def remove_word_def obj_get_set obj_get_delete Let_def)
  next
    case Some2: (Some v')
    from wf Some2 obtain f where "v' = Obj f" by (rule wf_jsse_value)
    then show ?thesis using Some Some2 v ne d c
      by (simp add: merge_word_def remove_word_def obj_get_set obj_get_delete Let_def)
  qed
qed

lemma remove_fold_merge_commute:
  assumes "wf_jsse s" and "list_all (\<lambda>q. fst q \<noteq> w) index"
    and "list_all (\<lambda>q. 1 \<le> count (snd q)) index"
  shows "remove_word key w (fold (merge_word key) (map (\<lambda>p. (fst p, Obj (snd p))) index) s)
          = fold (merge_word key) (map (\<lambda>p. (fst p, Obj (snd p))) index) (remove_word key w s)"
  using assms
proof (induction index arbitrary: s)
  case Nil
  then show ?case by simp
next
  case (Cons q index)
  from Cons.prems have ne: "w \<noteq> fst q" and c: "1 \<le> count (snd q)"
    and r1: "list_all (\<lambda>q. fst q \<noteq> w) index" and r2: "list_all (\<lambda>q. 1 \<le> count (snd q)) index"
    by auto
  let ?q = "(fst q, Obj (snd q))"
  let ?own = "map (\<lambda>p. (fst p, Obj (snd p))) index"
  have wf': "wf_jsse (merge_word key ?q s)" using Cons.prems(1) c by (rule merge_word_wf)
  have "remove_word key w (fold (merge_word key) (map (\<lambda>p. (fst p, Obj (snd p))) (q # index)) s)
          = fold (merge_word key) ?own (remove_word key w (merge_word key ?q s))"
    using Cons.IH [OF wf' r1 r2] by simp
  also have "\<dots> = fold (merge_word key) ?own (merge_word key ?q (remove_word key w s))"
    using remove_merge_commute [OF Cons.prems(1) ne] by simp
  finally show ?case by simp
qed

lemma fold_merge_remove:
  assumes wf: "wf_jsse s" and "distinct (map fst index)"
    and "list_all (\<lambda>q. 1 \<le> count (snd q)) index"
    and "list_all (\<lambda>p. case obj_get (collection s) (fst p) of
                      None \<Rightarrow> count (snd p) = 1 | Some v \<Rightarrow> True) index"
    and "truthy key \<Longrightarrow>
      list_all (\<lambda>p. case obj_get (collection s) (fst p) of
                      Some (Obj e) \<Rightarrow> the key \<notin> set (keys e) | _ \<Rightarrow> True) index"
  shows "fold (remove_word key) (map fst index)
           (fold (merge_word key) (map (\<lambda>p. (fst p, Obj (snd p))) index) s) = s"
  using assms(2-)
proof (induction index)
  case Nil
  then show ?case by simp
next
  case (Cons p index)
  let ?p = "(fst p, Obj (snd p))"
  let ?own = "map (\<lambda>p. (fst p, Obj (snd p))) index"
  from Cons.prems(1) have np: "fst p \<notin> fst ` set index" and d: "distinct (map fst index)"
    by simp_all
  have ne: "list_all (\<lambda>q. fst q \<noteq> fst p) index"
    unfolding list_all_iff
  proof
    fix q
    assume "q \<in> set index"
    then have m: "fst q \<in> fst ` set index" by (rule imageI)
    show "fst q \<noteq> fst p"
    proof
      assume "fst q = fst p"
      with m have "fst p \<in> fst ` set index" by simp
      with np show False by contradiction
    qed
  qed
  from Cons.prems(2) have c: "1 \<le> count (snd p)" and cs: "list_all (\<lambda>q. 1 \<le> count (snd q)) index"
    by simp_all
  from Cons.prems(3)
  have once: "obj_get (collection s) (fst p) = None \<Longrightarrow> count (snd p) = 1"
    and onces: "list_all (\<lambda>p. case obj_get (collection s) (fst p) of
                      None \<Rightarrow> count (snd p) = 1 | Some v \<Rightarrow> True) index"
    by simp_all
  have unused: "truthy key \<Longrightarrow>
      (case obj_get (collection s) (fst p) of
         Some (Obj e) \<Rightarrow> the key \<notin> set (keys e) | _ \<Rightarrow> True)"
    and unuseds: "truthy key \<Longrightarrow>
      list_all (\<lambda>p. case obj_get (collection s) (fst p) of
                      Some (Obj e) \<Rightarrow> the key \<notin> set (keys e) | _ \<Rightarrow> True) index"
    using Cons.prems(4) by simp_all
  have wf': "wf_jsse (merge_word key ?p s)" using wf c by (rule merge_word_wf)
  have "fold (remove_word key) (map fst (p # index))
          (fold (merge_word key) (map (\<lambda>p. (fst p, Obj (snd p))) (p # index)) s)
         = fold (remove_word key) (map fst index)
             (remove_word key (fst p) (fold (merge_word key) ?own (merge_word key ?p s)))"
    by simp
  also have "\<dots> = fold (remove_word key) (map fst index)
             (fold (merge_word key) ?own (remove_word key (fst p) (merge_word key ?p s)))"
    using remove_fold_merge_commute [OF wf' ne cs] by simp
  also have "\<dots> = fold (remove_word key) (map fst index) (fold (merge_word key) ?own s)"
    using merge_remove_word [OF wf once unused] by simp
  also have "\<dots> = s"
    using Cons.IH [OF d cs onces unuseds] by simp
  finally show ?case .
qed

lemma obj_set_nonempty: "obj_set k v ob \<noteq> []"
proof
  assume "obj_set k v ob = []"
  then have "obj_get (obj_set k v ob) k = None" by (simp add: obj_get_def)
  then show False by (simp add: obj_get_set)
qed

lemma fold_merge_word_grows:
  "ps \<noteq> [] \<Longrightarrow> collection (fold (merge_word key) ps s) \<noteq> []"
proof (induction ps arbitrary: s)
  case Nil
  then show ?case by simp
next
  case (Cons p ps)
  have n: "collection (merge_word key p s) \<noteq> []"
    by (simp add: merge_word_def obj_set_nonempty split: option.splits jsval.splits)
  show ?case
  proof (cases "ps = []")
    case True
    with n show ?thesis by simp
  next
    case False
    from Cons.IH [OF False, of "merge_word key p s"] show ?thesis by simp
  qed
qed

lemma keys_assign_undo:
  assumes "K \<noteq> ''__proto__''" and "obj_get (keys_jsse s) K = None"
  shows "keys_assign K str s = s\<lparr>keys_jsse := obj_set K str (keys_jsse s)\<rparr>"
    and "obj_delete K (obj_set K str (keys_jsse s)) = keys_jsse s"
proof -
  show "keys_assign K str s = s\<lparr>keys_jsse := obj_set K str (keys_jsse s)\<rparr>"
    using assms(1) by (simp add: keys_assign_def)
  have "K \<notin> fst ` set (keys_jsse s)" using assms(2) by (simp add: obj_get_None)
  then have "obj_delete K (obj_insert K str (keys_jsse s)) = keys_jsse s"
    by (rule obj_delete_insert)
  then show "obj_delete K (obj_set K str (keys_jsse s)) = keys_jsse s"
    using assms(2) by (simp add: obj_set_def)
qed

section \<open>Where no inherited name is read\<close>

subsection \<open>The names of an expansion\<close>

lemma fold_names:
  assumes "fst ` set a \<subseteq> N" and "\<And>x a. x \<in> set xs \<Longrightarrow> fst ` set a \<subseteq> N \<Longrightarrow> fst ` set (f x a) \<subseteq> N"
  shows "fst ` set (fold f xs a) \<subseteq> N"
  using assms by (induction xs arbitrary: a) simp_all

lemma for_in_names: "set (for_in pc ob) \<subseteq> insert ''count'' (fst ` set ob)"
  by (force simp: for_in_def)

lemma for_in_entries_names: "fst ` set (for_in_entries pc ob) \<subseteq> insert ''count'' (fst ` set ob)"
  by (force simp: for_in_entries_def for_in_values_def)

text \<open>
  The names of an expansion are names of the index of the query, own names of the
  collection, or \<^verbatim>\<open>count\<close>: never a name of \<^verbatim>\<open>Object.prototype\<close> that the
  collection does not hold.
\<close>

lemma jsse_indexAgainst_names:
  assumes "w \<in> fst ` set (fst (jsse_indexAgainst s str))"
  shows "w \<in> fst ` set (collection s) \<or> w \<notin> set proto_names"
proof -
  obtain index_tmp pc where i: "jsse_index str (proto_count s) = (index_tmp, pc)"
    by (cases "jsse_index str (proto_count s)")
  let ?N = "insert ''count'' (fst ` set index_tmp \<union> fst ` set (collection s))"
  have seed: "fst ` set (seed_index (for_in_entries pc index_tmp)) \<subseteq> ?N"
    unfolding seed_index_def
  proof (rule fold_names)
    show "fst ` set ([] :: expansion jsval obj) \<subseteq> ?N" by simp
  next
    fix x and a :: "expansion jsval obj"
    assume "x \<in> set (for_in_entries pc index_tmp)" and "fst ` set a \<subseteq> ?N"
    then show "fst ` set (obj_set (fst x)
                 (case snd x of NaN \<Rightarrow> NaN
                  | Obj r \<Rightarrow> Obj \<lparr>weight = weight r, count = count r, orig = fst x\<rparr>) a) \<subseteq> ?N"
      using for_in_entries_names [of pc index_tmp] by (auto simp: obj_set_keys)
  qed
  have expand: "fst ` set (expand_word ps word a) \<subseteq> ?N"
    if "word \<in> ?N" and "fst ` set a \<subseteq> ?N" for ps word and a :: "expansion jsval obj"
    unfolding expand_word_def
    by (rule fold_names) (use that in \<open>auto simp: obj_set_keys\<close>)
  have "fst ` set (fold (expand_word (for_in pc index_tmp)) (for_in pc (collection s))
                     (seed_index (for_in_entries pc index_tmp))) \<subseteq> ?N"
    using seed
  proof (rule fold_names)
    fix x and a :: "expansion jsval obj"
    assume "x \<in> set (for_in pc (collection s))" and a: "fst ` set a \<subseteq> ?N"
    then have "x \<in> ?N" using for_in_names [of pc "collection s"] by auto
    then show "fst ` set (expand_word (for_in pc index_tmp) x a) \<subseteq> ?N" using a by (rule expand)
  qed
  with assms i have "w \<in> ?N" by (auto simp: jsse_indexAgainst_def)
  moreover have "''count'' \<notin> set proto_names" by (simp add: proto_names_def)
  moreover have "w \<in> fst ` set index_tmp \<Longrightarrow> w \<notin> set proto_names"
    using jsse_index_names [of w str "proto_count s"] i by simp
  ultimately show ?thesis by auto
qed

subsection \<open>The array of the scores\<close>

lemma arr_assign_keeps_count:
  "obj_get (arr_props a) ''count'' \<noteq> None \<Longrightarrow> obj_get (arr_props (arr_assign key v a)) ''count'' \<noteq> None"
proof -
  assume "obj_get (arr_props a) ''count'' \<noteq> None"
  then have m: "''count'' \<in> fst ` set (arr_props a)" by (simp add: obj_get_None)
  have n: "\<not> is_array_index ''count''" by (simp add: is_array_index_def digit_chars_def)
  have "''count'' \<in> fst ` set (filter (\<lambda>p. \<not> (is_array_index (fst p) \<and> nat v \<le> dec_val (fst p)))
                                  (arr_props a))"
    using m n by force
  then show ?thesis using m
    by (simp add: arr_assign_def obj_get_None obj_set_keys del: set_filter)
qed

lemma arr_assign_count: "obj_get (arr_props (arr_assign ''count'' v a)) ''count'' \<noteq> None"
  by (simp add: arr_assign_def is_array_index_def digit_chars_def obj_get_set)

lemma score_loop_keeps_count:
  "try_fold (score_step s str) ks a = Returns nb \<Longrightarrow>
     obj_get (arr_props a) ''count'' \<noteq> None \<or> ''count'' \<in> set ks \<Longrightarrow>
     obj_get (arr_props nb) ''count'' \<noteq> None"
proof (induction ks arbitrary: a)
  case Nil
  then show ?case by simp
next
  case (Cons k ks)
  show ?case
  proof (cases "score_step s str k a")
    case Throws
    with Cons.prems(1) show ?thesis by simp
  next
    case (Returns a')
    then obtain v where a': "a' = arr_assign k v a"
      by (auto simp: score_step_def split: outcome.splits)
    from Cons.prems(1) Returns have rest: "try_fold (score_step s str) ks a' = Returns nb"
      by simp
    have "obj_get (arr_props a') ''count'' \<noteq> None \<or> ''count'' \<in> set ks"
      using Cons.prems(2) arr_assign_keeps_count [of a k v] arr_assign_count [of v a]
      by (auto simp: a')
    with rest show ?thesis by (rule Cons.IH)
  qed
qed

text \<open>
  When \<^verbatim>\<open>Object.prototype\<close> has the property \<^verbatim>\<open>count\<close>, the scoring loop of
  \<^verbatim>\<open>match\<close> visits that name and gives the array \<^verbatim>\<open>nb_keywords\<close> a property
  \<^verbatim>\<open>count\<close> of its own.
\<close>

lemma scores_hold_count:
  assumes "try_fold (score_step s str) (for_in True keys') empty_array = Returns nb"
  shows "obj_get (arr_props nb) ''count'' \<noteq> None"
proof -
  have "''count'' \<in> set (for_in True keys')"
    by (simp add: for_in_def obj_get_None)
  with assms show ?thesis using score_loop_keeps_count by blast
qed

section \<open>What a call leaves as it is\<close>

text \<open>
  \<^verbatim>\<open>match\<close> changes no field of the engine. It changes \<^verbatim>\<open>Object.prototype\<close> when the
  query holds the word \<^verbatim>\<open>__proto__\<close>, and only then.
\<close>

lemma match_keeps_engine:
  "size_jsse (snd (match s str mode)) = size_jsse s
   \<and> collection (snd (match s str mode)) = collection s
   \<and> keys_jsse (snd (match s str mode)) = keys_jsse s
   \<and> keys_proto (snd (match s str mode)) = keys_proto s"
  by (simp add: match_state)

lemma match_keeps_state:
  assumes "snd (jsse_index str (proto_count s)) = proto_count s"
  shows "snd (match s str mode) = s"
  using assms by (simp add: match_state)

text \<open>
  As long as \<^verbatim>\<open>Object.prototype\<close> has no property \<^verbatim>\<open>count\<close>, the counter \<^verbatim>\<open>size\<close> is
  the number of words of the collection.
\<close>

lemma size_counts_words:
  assumes "\<not> proto_count (run ops)"
  shows "distinct (getWords (run ops)) \<and> size_jsse (run ops) = int (length (getWords (run ops)))
   \<and> size_jsse (run ops) = int (card (dom (obj_get (collection (run ops)))))"
proof -
  have wf: "wf_jsse (run ops)" using assms by (rule run_wf)
  have g: "getWords (run ops) = map fst (collection (run ops))"
    using assms by (simp add: getWords_def for_in_plain)
  from wf have d: "distinct (getWords (run ops))"
    and l: "size_jsse (run ops) = int (length (getWords (run ops)))"
    by (simp_all add: wf_jsse_def g)
  have "dom (map_of (collection (run ops))) = fst ` set (collection (run ops))"
    by (rule dom_map_of_conv_image_fst)
  moreover have "obj_get (collection (run ops)) = map_of (collection (run ops))"
    by (rule ext) (simp add: obj_get_def)
  ultimately have "dom (obj_get (collection (run ops))) = set (getWords (run ops))"
    by (simp add: g)
  then have "card (dom (obj_get (collection (run ops)))) = length (getWords (run ops))"
    using d by (simp add: distinct_card)
  with d l show ?thesis by simp
qed

section \<open>Where \<^verbatim>\<open>match\<close> does what the specification says\<close>

lemma fold_invariant:
  assumes "I a" and "\<And>x a. x \<in> set xs \<Longrightarrow> I a \<Longrightarrow> I (f x a)"
  shows "I (fold f xs a)"
  using assms by (induction xs arbitrary: a) simp_all

lemma try_fold_invariant:
  assumes "try_fold f xs a = Returns b" and "I a"
    and "\<And>x a a'. x \<in> set xs \<Longrightarrow> I a \<Longrightarrow> f x a = Returns a' \<Longrightarrow> I a'"
  shows "I b"
  using assms
proof (induction xs arbitrary: a)
  case Nil
  then show ?case by simp
next
  case (Cons x xs)
  show ?case
  proof (cases "f x a")
    case Throws
    with Cons.prems(1) show ?thesis by simp
  next
    case (Returns a')
    with Cons.prems(1) have rest: "try_fold f xs a' = Returns b" by simp
    have "I a'" using Cons.prems(2) Returns Cons.prems(3) [of x a a'] by simp
    with rest show ?thesis using Cons.prems(3) by (intro Cons.IH [of a']) auto
  qed
qed

text \<open>
  In a state where \<^verbatim>\<open>Object.prototype\<close> has no property \<^verbatim>\<open>count\<close>, for a query that
  does not hold the word \<^verbatim>\<open>__proto__\<close>: what \<^verbatim>\<open>_indexAgainst\<close> and \<^verbatim>\<open>match\<close> are.
\<close>

lemma jsse_indexAgainst_plain:
  assumes "jsse_index str (proto_count s) = (index_tmp, False)"
  shows "jsse_indexAgainst s str
           = (fold (expand_word (map fst index_tmp)) (map fst (collection s))
                (seed_index (map (\<lambda>p. (fst p, Obj (snd p))) index_tmp)),
              False)"
  using assms by (simp add: jsse_indexAgainst_def for_in_plain for_in_entries_plain)

lemma match_plain:
  assumes "jsse_indexAgainst s str = (index, False)"
  shows "fst (match s str mode)
    = (case collect_keys (s\<lparr>proto_count := False\<rparr>) index of
         Throws \<Rightarrow> Throws
       | Returns keys' \<Rightarrow>
           if (if truthy mode then the mode else ''all'') = ''all''
           then Returns (map (\<lambda>p. Some (fst p))
                           (filter (\<lambda>p. int (length (snd p)) = query_size False index) keys'))
           else (case try_fold (score_step (s\<lparr>proto_count := False\<rparr>) str) (map fst keys')
                        empty_array of
                   Throws \<Rightarrow> Throws
                 | Returns nb_keywords \<Rightarrow>
                     Returns (map (\<lambda>p. Some (fst p)) (jsse_sort_assoc_array nb_keywords))))"
proof -
  have f: "map (\<lambda>p. Some (fst p))
             (filter (\<lambda>p. case snd p of NaN \<Rightarrow> False | Obj arr \<Rightarrow> int (length arr) = n)
                (map (\<lambda>p. (fst p, Obj (snd p))) ks))
           = map (\<lambda>p. Some (fst p)) (filter (\<lambda>p. int (length (snd p)) = n) ks)"
    for n and ks :: "string option list obj"
    by (induction ks) simp_all
  show ?thesis
    using assms
    by (simp add: match_def Let_def for_in_plain for_in_entries_plain f
        split: outcome.splits)
qed

subsection \<open>The number of query words, when none is a prefix of another\<close>

lemma fold_obj_set_keys:
  "fst ` set (fold (\<lambda>p. obj_set (fst p) (g p)) idx index) = fst ` set idx \<union> fst ` set index"
proof (induction idx arbitrary: index)
  case Nil
  then show ?case by simp
next
  case (Cons p idx)
  show ?case by (simp add: Cons.IH obj_set_keys)
qed

lemma seed_index_own:
  "seed_index (map (\<lambda>p. (fst p, Obj (snd p))) idx)
     = fold (\<lambda>p. obj_set (fst p) (Obj \<lparr>weight = weight (snd p), count = count (snd p), orig = fst p\<rparr>))
         idx []"
  by (simp add: seed_index_def fold_map comp_def)

lemma seed_index_seeded: "seeded (fst ` set idx) (seed_index (map (\<lambda>p. (fst p, Obj (snd p))) idx))"
proof -
  let ?seed = "seed_index (map (\<lambda>p. (fst p, Obj (snd p))) idx)"
  have d: "distinct (map fst ?seed)"
    unfolding seed_index_own
    by (rule fold_invariant) (simp_all add: obj_set_distinct)
  have o: "list_all (\<lambda>e. Some (fst e) = orig_of (snd e)) ?seed"
    unfolding seed_index_own
    by (rule fold_invariant) (simp_all add: obj_set_list_all orig_of_def)
  have k: "fst ` set ?seed = fst ` set idx"
    unfolding seed_index_own by (simp add: fold_obj_set_keys)
  have "list_all (\<lambda>e. (fst e \<in> fst ` set idx) = (Some (fst e) = orig_of (snd e))) ?seed"
    unfolding list_all_iff
  proof
    fix e
    assume e: "e \<in> set ?seed"
    then have "fst e \<in> fst ` set ?seed" by (rule imageI)
    then have "fst e \<in> fst ` set idx" by (simp only: k)
    moreover have "Some (fst e) = orig_of (snd e)" using o e by (simp add: list_all_iff)
    ultimately show "(fst e \<in> fst ` set idx) = (Some (fst e) = orig_of (snd e))" by simp
  qed
  with d k show ?thesis by (simp add: seeded_def)
qed

lemma expand_step_seeded:
  assumes s: "seeded P index" and q: "q \<in> P"
    and pre: "word \<in> P \<Longrightarrow> str_indexOf word q 0 = 0 \<Longrightarrow> q = word"
  shows "seeded P (if str_indexOf word q 0 = 0
                    then obj_set word (Obj \<lparr>weight = int (length q), count = 1, orig = q\<rparr>) index
                    else index)"
proof (cases "str_indexOf word q 0 = 0")
  case False
  then show ?thesis using s by simp
next
  case True
  have w: "(word \<in> P) = (word = q)"
  proof
    assume "word \<in> P"
    with pre True show "word = q" by simp
  next
    assume "word = q"
    with q show "word \<in> P" by simp
  qed
  let ?i = "obj_set word (Obj \<lparr>weight = int (length q), count = 1, orig = q\<rparr>) index"
  have "distinct (map fst ?i)" using s by (simp add: seeded_def obj_set_distinct)
  moreover have "P \<subseteq> fst ` set ?i" using s by (auto simp: seeded_def obj_set_keys)
  moreover have "list_all (\<lambda>e. (fst e \<in> P) = (Some (fst e) = orig_of (snd e))) ?i"
    using s w by (intro obj_set_list_all) (simp_all add: seeded_def orig_of_def)
  ultimately show ?thesis using True by (simp add: seeded_def)
qed

lemma expand_word_seeded:
  assumes s: "seeded P index" and sub: "set partials \<subseteq> P"
    and pre: "\<And>q. q \<in> P \<Longrightarrow> word \<in> P \<Longrightarrow> str_indexOf word q 0 = 0 \<Longrightarrow> q = word"
  shows "seeded P (expand_word partials word index)"
  unfolding expand_word_def
proof (rule fold_invariant)
  show "seeded P index" by (rule s)
next
  fix q a
  assume q: "q \<in> set partials" and a: "seeded P a"
  from q sub have fp: "q \<in> P" by auto
  have "word \<in> P \<Longrightarrow> str_indexOf word q 0 = 0 \<Longrightarrow> q = word"
    using pre [OF fp] by simp
  with a fp show "seeded P (if str_indexOf word q 0 = 0
                  then obj_set word (Obj \<lparr>weight = int (length q), count = 1, orig = q\<rparr>) a
                  else a)"
    by (rule expand_step_seeded)
qed

lemma filter_keys_length:
  assumes "distinct (map fst ob)" and "P \<subseteq> fst ` set ob"
  shows "length (filter (\<lambda>e. fst e \<in> P) ob) = card P"
proof -
  have m: "map fst (filter (\<lambda>e. fst e \<in> P) ob) = filter (\<lambda>k. k \<in> P) (map fst ob)"
    by (induction ob) auto
  have "length (filter (\<lambda>e. fst e \<in> P) ob) = length (map fst (filter (\<lambda>e. fst e \<in> P) ob))"
    by simp
  also have "\<dots> = length (filter (\<lambda>k. k \<in> P) (map fst ob))"
    by (simp only: m)
  also have "\<dots> = card (set (filter (\<lambda>k. k \<in> P) (map fst ob)))"
  proof -
    have "distinct (filter (\<lambda>k. k \<in> P) (map fst ob))" using assms(1) by (rule distinct_filter)
    then show ?thesis by (rule distinct_card [symmetric])
  qed
  also have "set (filter (\<lambda>k. k \<in> P) (map fst ob)) = P"
    using assms(2) by auto
  finally show ?thesis .
qed

lemma query_size_seeded:
  assumes "seeded P index"
  shows "query_size False index = int (card P)"
proof -
  have "filter (\<lambda>p. Some (fst p) = orig_of (snd p)) index = filter (\<lambda>e. fst e \<in> P) index"
    using assms by (intro filter_cong) (auto simp: seeded_def list_all_iff)
  then show ?thesis
    using assms by (simp add: query_size_def for_in_values_plain seeded_def filter_keys_length)
qed

text \<open>
  Take a query that does not hold the word \<^verbatim>\<open>__proto__\<close>, in a state where
  \<^verbatim>\<open>Object.prototype\<close> has no property \<^verbatim>\<open>count\<close>. If no word of its index starts with
  another one, the number \<^verbatim>\<open>size\<close> that \<^verbatim>\<open>match\<close> computes is the number of words of
  the index.
\<close>

lemma query_size_counts_query_words:
  assumes idx: "jsse_index str (proto_count s) = (index_tmp, False)"
    and pre: "\<And>p q. p \<in> fst ` set index_tmp \<Longrightarrow> q \<in> fst ` set index_tmp \<Longrightarrow>
             str_indexOf p q 0 = 0 \<Longrightarrow> q = p"
  shows "(case jsse_indexAgainst s str of (index, pc) \<Rightarrow> query_size pc index)
           = int (length index_tmp)"
proof -
  let ?P = "fst ` set index_tmp"
  let ?index = "fold (expand_word (map fst index_tmp)) (map fst (collection s))
                  (seed_index (map (\<lambda>p. (fst p, Obj (snd p))) index_tmp))"
  have d: "distinct (map fst index_tmp)"
    using jsse_index_distinct [of str "proto_count s"] idx by simp
  have "seeded ?P ?index"
  proof (rule fold_invariant)
    show "seeded ?P (seed_index (map (\<lambda>p. (fst p, Obj (snd p))) index_tmp))"
      by (rule seed_index_seeded)
  next
    fix w a
    assume "seeded ?P a"
    then show "seeded ?P (expand_word (map fst index_tmp) w a)"
      by (rule expand_word_seeded) (use pre in auto)
  qed
  then have "query_size False ?index = int (card ?P)" by (rule query_size_seeded)
  also have "card ?P = length index_tmp"
  proof -
    have "card (set (map fst index_tmp)) = length (map fst index_tmp)" using d by (rule distinct_card)
    then show ?thesis by simp
  qed
  finally show ?thesis using jsse_indexAgainst_plain [OF idx] by simp
qed

subsection \<open>The two modes, when no key is \<^verbatim>\<open>length\<close>\<close>

text \<open>The keys that \<^verbatim>\<open>match\<close> collects are not names of \<^verbatim>\<open>Object.prototype\<close>.\<close>

lemma note_key_names:
  assumes "note_key orig' key keys' = Returns k2"
    and "fst ` set keys' \<inter> set proto_names = {}"
  shows "fst ` set k2 \<inter> set proto_names = {}"
proof (cases "obj_get keys' key")
  case None
  show ?thesis
  proof (cases "key \<in> set proto_names")
    case True
    with assms(1) None have "k2 = keys'"
      by (simp add: note_key_def split: if_splits)
    with assms(2) show ?thesis by simp
  next
    case False
    with assms(1) None have "k2 = obj_set key [orig'] keys'"
      by (simp add: note_key_def)
    then have "fst ` set k2 = insert key (fst ` set keys')"
      by (simp add: obj_set_keys)
    with assms(2) False show ?thesis by simp
  qed
next
  case (Some arr)
  then have "(key, arr) \<in> set keys'" by (rule obj_get_in_set)
  then have m: "key \<in> fst ` set keys'" by force
  from assms(1) Some have "k2 = keys' \<or> k2 = obj_set key (arr @ [orig']) keys'"
    by (simp add: note_key_def split: if_splits)
  moreover have "fst ` set (obj_set key (arr @ [orig']) keys') = fst ` set keys'"
    using m by (simp add: obj_set_keys insert_absorb)
  ultimately have "fst ` set k2 = fst ` set keys'" by (elim disjE) simp_all
  with assms(2) show ?thesis by simp
qed

lemma collect_step_names:
  assumes "collect_step s p keys' = Returns k2"
    and "fst ` set keys' \<inter> set proto_names = {}"
  shows "fst ` set k2 \<inter> set proto_names = {}"
proof (cases "obj_get (collection s) (fst p)")
  case None
  with assms show ?thesis by (simp add: collect_step_def)
next
  case (Some v)
  show ?thesis
  proof (cases v)
    case NaN
    with Some assms show ?thesis by (simp add: collect_step_def)
  next
    case (Obj found)
    with Some assms(1)
    have "try_fold (note_key (orig_of (snd p))) (found_keys (proto_count s) found) keys' = Returns k2"
      by (simp add: collect_step_def)
    then show ?thesis using assms(2)
      by (rule try_fold_invariant) (rule note_key_names)
  qed
qed

lemma collect_keys_names:
  assumes "collect_keys s index = Returns keys'"
  shows "fst ` set keys' \<inter> set proto_names = {}"
proof -
  from assms
  have "try_fold (collect_step s) (for_in_values (proto_count s) index) [] = Returns keys'"
    by (simp add: collect_keys_def)
  then show ?thesis
    by (rule try_fold_invariant) (simp, rule collect_step_names)
qed

lemma arr_assign_keys:
  "key \<noteq> ''length'' \<Longrightarrow> key \<noteq> ''__proto__'' \<Longrightarrow>
     fst ` set (arr_props (arr_assign key v a)) = insert key (fst ` set (arr_props a))"
  by (simp add: arr_assign_def obj_set_keys)

lemma score_loop_keys:
  "try_fold (score_step s str) ks a = Returns nb \<Longrightarrow> ''length'' \<notin> set ks \<Longrightarrow>
     ''__proto__'' \<notin> set ks \<Longrightarrow>
     fst ` set (arr_props nb) = set ks \<union> fst ` set (arr_props a)"
proof (induction ks arbitrary: a)
  case Nil
  then show ?case by simp
next
  case (Cons k ks)
  show ?case
  proof (cases "score_step s str k a")
    case Throws
    with Cons.prems(1) show ?thesis by simp
  next
    case (Returns a')
    then obtain v where a': "a' = arr_assign k v a"
      by (auto simp: score_step_def split: outcome.splits)
    from Cons.prems(1) Returns have rest: "try_fold (score_step s str) ks a' = Returns nb"
      by simp
    from Cons.prems have k: "k \<noteq> ''length''" "k \<noteq> ''__proto__''"
      and r: "''length'' \<notin> set ks" "''__proto__'' \<notin> set ks"
      by auto
    from Cons.IH [OF rest r] arr_assign_keys [OF k, of v a] show ?thesis
      by (auto simp: a')
  qed
qed

text \<open>
  Take a query that does not hold the word \<^verbatim>\<open>__proto__\<close>, in a state where
  \<^verbatim>\<open>Object.prototype\<close> has no property \<^verbatim>\<open>count\<close>. If the mode \<^verbatim>\<open>any\<close> returns and
  no key found is \<^verbatim>\<open>length\<close>, the mode \<^verbatim>\<open>all\<close> returns, and its keys are among those
  of the mode \<^verbatim>\<open>any\<close>.
\<close>

lemma match_all_within_any:
  assumes idx: "jsse_indexAgainst s str = (index, False)"
    and any: "fst (match s str (Some ''any'')) = Returns r"
    and len: "\<And>keys'. collect_keys (s\<lparr>proto_count := False\<rparr>) index = Returns keys' \<Longrightarrow>
                ''length'' \<notin> fst ` set keys'"
  shows "\<exists>r'. fst (match s str (Some ''all'')) = Returns r' \<and> set r' \<subseteq> set r"
proof -
  let ?s = "s\<lparr>proto_count := False\<rparr>"
  from any obtain keys' where keys: "collect_keys ?s index = Returns keys'"
    by (cases "collect_keys ?s index") (simp_all add: match_plain [OF idx])
  with any obtain nb where nb: "try_fold (score_step ?s str) (map fst keys') empty_array = Returns nb"
    and r: "r = map (\<lambda>p. Some (fst p)) (jsse_sort_assoc_array nb)"
    by (cases "try_fold (score_step ?s str) (map fst keys') empty_array")
      (simp_all add: match_plain [OF idx] truthy_def)
  have l: "''length'' \<notin> set (map fst keys')" using len [OF keys] by simp
  have "''__proto__'' \<in> set proto_names" by (simp add: proto_names_def)
  with collect_keys_names [OF keys] have p: "''__proto__'' \<notin> set (map fst keys')" by auto
  from score_loop_keys [OF nb l p]
  have "fst ` set (arr_props nb) = fst ` set keys'" by (simp add: empty_array_def)
  then have "set r = (\<lambda>p. Some (fst p)) ` set keys'"
    by (simp add: r jsse_sort_assoc_array_def image_image [symmetric] del: image_image)
  moreover have "fst (match s str (Some ''all''))
      = Returns (map (\<lambda>p. Some (fst p))
                   (filter (\<lambda>p. int (length (snd p)) = query_size False index) keys'))"
    using keys by (simp add: match_plain [OF idx] truthy_def)
  ultimately show ?thesis by auto
qed

subsection \<open>Queries of one word\<close>

lemma split_loop_no_space: "CHR '' '' \<notin> set s \<Longrightarrow> split_loop s cur = [rev cur @ s]"
  by (induction s arbitrary: cur) auto

lemma split_space_no_space: "CHR '' '' \<notin> set s \<Longrightarrow> split_space s = [s]"
  by (simp add: split_space_def split_loop_no_space)

lemma jsse_index_single:
  assumes "CHR '' '' \<notin> set P" and "normalize_word P = P" and "2 \<le> length P"
    and "P \<notin> set proto_names"
  shows "jsse_index (Some P) pc = ([(P, \<lparr>weight = int (length P), count = 1\<rparr>)], pc)"
proof -
  have "P \<noteq> []" using assms(3) by auto
  then show ?thesis using assms
    by (simp add: jsse_index_def split_space_no_space Let_def obj_get_def obj_set_def)
qed

lemma str_indexOf_prefix:
  assumes "take (length P) W = P" and "P \<noteq> []"
  shows "str_indexOf W P 0 = 0"
proof (cases W)
  case Nil
  with assms show ?thesis by simp
next
  case (Cons c cs)
  with assms show ?thesis by (simp add: str_indexOf_def)
qed

text \<open>The expansion of a query of one word.\<close>

lemma expand_single_tagged:
  assumes "tagged P index"
  shows "tagged P (fold (expand_word [P]) ws index)
    \<and> fst ` set index \<subseteq> fst ` set (fold (expand_word [P]) ws index)
    \<and> {w \<in> set ws. str_indexOf w P 0 = 0} \<subseteq> fst ` set (fold (expand_word [P]) ws index)"
  using assms
proof (induction ws arbitrary: index)
  case Nil
  then show ?case by simp
next
  case (Cons w ws)
  let ?i = "expand_word [P] w index"
  have t: "tagged P ?i"
    using Cons.prems
    by (simp add: expand_word_def tagged_def obj_set_distinct obj_set_list_all obj_set_keys
        orig_of_def)
  have sub: "fst ` set index \<subseteq> fst ` set ?i"
    by (auto simp: expand_word_def obj_set_keys)
  have mem: "str_indexOf w P 0 = 0 \<Longrightarrow> w \<in> fst ` set ?i"
    by (simp add: expand_word_def obj_set_keys)
  from Cons.IH [OF t] sub mem show ?case by auto
qed

lemma filter_key_absent: "k \<notin> fst ` set ob \<Longrightarrow> filter (\<lambda>p. fst p = k) ob = []"
  by (induction ob) auto

lemma filter_key_once:
  "distinct (map fst ob) \<Longrightarrow> k \<in> fst ` set ob \<Longrightarrow> length (filter (\<lambda>p. fst p = k) ob) = 1"
proof (induction ob)
  case Nil
  then show ?case by simp
next
  case (Cons p ob)
  show ?case
  proof (cases "fst p = k")
    case True
    with Cons.prems(1) have "k \<notin> fst ` set ob" by auto
    with True show ?thesis by (simp add: filter_key_absent)
  next
    case False
    with Cons.prems have "distinct (map fst ob)" "k \<in> fst ` set ob" by auto
    from Cons.IH [OF this] False show ?thesis by simp
  qed
qed

lemma query_size_tagged:
  assumes "tagged P index"
  shows "query_size False index = 1"
proof -
  have eq: "filter (\<lambda>p. Some (fst p) = orig_of (snd p)) index = filter (\<lambda>p. fst p = P) index"
    using assms by (intro filter_cong) (auto simp: tagged_def list_all_iff)
  show ?thesis
    using assms by (simp add: query_size_def for_in_values_plain eq tagged_def filter_key_once)
qed

text \<open>The keys collected for a query of one word.\<close>

lemma in_keysI: "(k, v) \<in> set ob \<Longrightarrow> k \<in> fst ` set ob"
  by force

lemma indexOf_single: "indexOf [P] P = 0"
  by (simp add: indexOf_def)

lemma note_key_single:
  assumes ret: "note_key (Some P) key keys' = Returns k2"
    and one: "list_all (\<lambda>p. snd p = [Some P]) keys'"
  shows "list_all (\<lambda>p. snd p = [Some P]) k2 \<and> insert key (fst ` set keys') \<subseteq> fst ` set k2"
proof (cases "obj_get keys' key")
  case None
  with ret have "k2 = obj_set key [Some P] keys'"
    by (simp add: note_key_def split: if_splits)
  then show ?thesis using one by (simp add: obj_set_list_all obj_set_keys)
next
  case (Some arr)
  then have m: "(key, arr) \<in> set keys'" by (rule obj_get_in_set)
  with one have "arr = [Some P]" by (auto simp: list_all_iff)
  with Some ret have "k2 = keys'" by (simp add: note_key_def indexOf_single)
  with one in_keysI [OF m] show ?thesis by simp
qed

lemma try_fold_note_key_single:
  assumes "try_fold (note_key (Some P)) ks keys' = Returns k2"
    and "list_all (\<lambda>p. snd p = [Some P]) keys'"
  shows "list_all (\<lambda>p. snd p = [Some P]) k2 \<and> set ks \<union> fst ` set keys' \<subseteq> fst ` set k2"
  using assms
proof (induction ks arbitrary: keys')
  case Nil
  then show ?case by simp
next
  case (Cons k ks)
  show ?case
  proof (cases "note_key (Some P) k keys'")
    case Throws
    with Cons.prems(1) show ?thesis by simp
  next
    case (Returns k1)
    from note_key_single [OF Returns Cons.prems(2)]
    have a: "list_all (\<lambda>p. snd p = [Some P]) k1"
      and b: "insert k (fst ` set keys') \<subseteq> fst ` set k1"
      by simp_all
    from Cons.prems(1) Returns have rest: "try_fold (note_key (Some P)) ks k1 = Returns k2"
      by simp
    from Cons.IH [OF rest a]
    have c: "list_all (\<lambda>p. snd p = [Some P]) k2" and d: "set ks \<union> fst ` set k1 \<subseteq> fst ` set k2"
      by simp_all
    have "set (k # ks) \<union> fst ` set keys' \<subseteq> fst ` set k2"
      using b d by (simp only: list.set) blast
    with c show ?thesis by simp
  qed
qed

lemma collect_step_single:
  assumes ret: "collect_step s p keys' = Returns k2"
    and one: "list_all (\<lambda>p. snd p = [Some P]) keys'" and tag: "orig_of (snd p) = Some P"
    and pc: "\<not> proto_count s"
  shows "list_all (\<lambda>p. snd p = [Some P]) k2 \<and> fst ` set keys' \<subseteq> fst ` set k2
    \<and> (\<forall>found. obj_get (collection s) (fst p) = Some (Obj found) \<longrightarrow>
          set (keys found) \<subseteq> fst ` set k2)"
proof (cases "obj_get (collection s) (fst p)")
  case None
  with ret one show ?thesis by (simp add: collect_step_def)
next
  case (Some v)
  show ?thesis
  proof (cases v)
    case NaN
    with Some ret one show ?thesis by (simp add: collect_step_def)
  next
    case (Obj found)
    with Some ret tag pc
    have "try_fold (note_key (Some P)) (keys found) keys' = Returns k2"
      by (simp add: collect_step_def found_keys_def)
    from try_fold_note_key_single [OF this one] Some Obj show ?thesis by simp
  qed
qed

lemma try_fold_collect_step_single:
  assumes "try_fold (collect_step s) index keys' = Returns k2"
    and "list_all (\<lambda>p. snd p = [Some P]) keys'"
    and "list_all (\<lambda>p. orig_of (snd p) = Some P) index" and pc: "\<not> proto_count s"
  shows "list_all (\<lambda>p. snd p = [Some P]) k2 \<and> fst ` set keys' \<subseteq> fst ` set k2
    \<and> (\<forall>p\<in>set index. \<forall>found. obj_get (collection s) (fst p) = Some (Obj found) \<longrightarrow>
          set (keys found) \<subseteq> fst ` set k2)"
  using assms(1-3)
proof (induction index arbitrary: keys')
  case Nil
  then show ?case by simp
next
  case (Cons p index)
  from Cons.prems(3) have o: "orig_of (snd p) = Some P"
    and r: "list_all (\<lambda>p. orig_of (snd p) = Some P) index"
    by simp_all
  show ?case
  proof (cases "collect_step s p keys'")
    case Throws
    with Cons.prems(1) show ?thesis by simp
  next
    case (Returns k1)
    from collect_step_single [OF Returns Cons.prems(2) o pc]
    have a: "list_all (\<lambda>p. snd p = [Some P]) k1" and b: "fst ` set keys' \<subseteq> fst ` set k1"
      and c: "\<forall>found. obj_get (collection s) (fst p) = Some (Obj found) \<longrightarrow>
                set (keys found) \<subseteq> fst ` set k1"
      by simp_all
    from Cons.prems(1) Returns have rest: "try_fold (collect_step s) index k1 = Returns k2"
      by simp
    from Cons.IH [OF rest a r]
    have a': "list_all (\<lambda>p. snd p = [Some P]) k2" and b': "fst ` set k1 \<subseteq> fst ` set k2"
      and c': "\<forall>q\<in>set index. \<forall>found. obj_get (collection s) (fst q) = Some (Obj found) \<longrightarrow>
            set (keys found) \<subseteq> fst ` set k2"
      by simp_all
    have e: "\<forall>found. obj_get (collection s) (fst p) = Some (Obj found) \<longrightarrow>
            set (keys found) \<subseteq> fst ` set k2"
    proof (intro allI impI)
      fix found
      assume "obj_get (collection s) (fst p) = Some (Obj found)"
      with c have "set (keys found) \<subseteq> fst ` set k1" by simp
      with b' show "set (keys found) \<subseteq> fst ` set k2" by blast
    qed
    have f: "fst ` set keys' \<subseteq> fst ` set k2" using b b' by blast
    show ?thesis using a' f e c' by simp
  qed
qed

text \<open>
  Prefix containment, where the code does what the claim says. Let \<^verbatim>\<open>Object.prototype\<close>
  have no property \<^verbatim>\<open>count\<close>. Let \<open>W\<close> be a word of the collection and \<open>P\<close> a prefix of
  \<open>W\<close> of length at least 2 that normalization leaves unchanged, that holds no space and
  is not a name of \<^verbatim>\<open>Object.prototype\<close>. If \<^verbatim>\<open>match(P, 'all')\<close> returns (no key in reach
  is a name of \<^verbatim>\<open>Object.prototype\<close>), the array holds every key of the keys list of \<open>W\<close>.
\<close>

lemma prefix_containment:
  assumes pc: "\<not> proto_count s"
    and W: "obj_get (collection s) W = Some (Obj e)" and k: "k \<in> set (keys e)"
    and pre: "take (length P) W = P" and len: "2 \<le> length P"
    and norm: "normalize_word P = P" and sole: "CHR '' '' \<notin> set P"
    and np: "P \<notin> set proto_names"
    and ret: "fst (match s (Some P) (Some ''all'')) = Returns r"
  shows "Some k \<in> set r"
proof -
  let ?r = "\<lparr>weight = int (length P), count = 1\<rparr>"
  let ?index = "fold (expand_word [P]) (map fst (collection s)) (seed_index [(P, Obj ?r)])"
  have ne: "P \<noteq> []" using len by auto
  have same: "s\<lparr>proto_count := False\<rparr> = s" using pc by simp
  have idx: "jsse_index (Some P) (proto_count s) = ([(P, ?r)], False)"
    using jsse_index_single [OF sole norm len np, of "proto_count s"] pc by simp
  have ia: "jsse_indexAgainst s (Some P) = (?index, False)"
    using jsse_indexAgainst_plain [OF idx] by simp
  have seed: "tagged P (seed_index [(P, Obj ?r)])"
    by (simp add: seed_index_def tagged_def obj_set_def obj_get_def orig_of_def)
  from expand_single_tagged [OF seed, of "map fst (collection s)"]
  have t: "tagged P ?index"
    and m: "{w \<in> set (map fst (collection s)). str_indexOf w P 0 = 0} \<subseteq> fst ` set ?index"
    by simp_all
  have "(W, Obj e) \<in> set (collection s)" using W by (rule obj_get_in_set)
  then have "W \<in> set (map fst (collection s))" by force
  with m str_indexOf_prefix [OF pre ne] have "W \<in> fst ` set ?index" by auto
  then obtain x where x: "(W, x) \<in> set ?index" by auto
  have size: "query_size False ?index = 1" using t by (rule query_size_tagged)
  have o: "list_all (\<lambda>p. orig_of (snd p) = Some P) ?index" using t by (simp add: tagged_def)
  from ret obtain keys' where keys: "collect_keys s ?index = Returns keys'"
    and r: "r = map (\<lambda>p. Some (fst p)) (filter (\<lambda>p. int (length (snd p)) = 1) keys')"
    by (cases "collect_keys s ?index") (simp_all add: match_plain [OF ia] same truthy_def size)
  from keys have tf: "try_fold (collect_step s) ?index [] = Returns keys'"
    using pc by (simp add: collect_keys_def for_in_values_plain)
  have nil: "list_all (\<lambda>p. snd p = [Some P]) ([] :: string option list obj)" by simp
  from try_fold_collect_step_single [OF tf nil o pc]
  have all: "list_all (\<lambda>p. snd p = [Some P]) keys'"
    and found: "\<forall>p\<in>set ?index. \<forall>found. obj_get (collection s) (fst p) = Some (Obj found) \<longrightarrow>
          set (keys found) \<subseteq> fst ` set keys'"
    by simp_all
  from found x W k have "k \<in> fst ` set keys'" by fastforce
  then obtain arr where arr: "(k, arr) \<in> set keys'" by auto
  with all have "int (length arr) = 1" by (auto simp: list_all_iff)
  with arr have "(k, arr) \<in> set (filter (\<lambda>p. int (length (snd p)) = 1) keys')" by simp
  then have "Some (fst (k, arr)) \<in> (\<lambda>p. Some (fst p)) ` set (filter (\<lambda>p. int (length (snd p)) = 1) keys')"
    by (rule imageI)
  then show ?thesis by (simp add: r)
qed

section \<open>The claims\<close>

subsection \<open>The scenario of the header comment\<close>

text \<open>
  Claim C5. Starting from an empty engine, after
  \<^verbatim>\<open>add('Instant search in Google is awesome!', 'quote')\<close> and
  \<^verbatim>\<open>add('It will work fine after you install that patch.', 'instruction')\<close>,
  the call \<^verbatim>\<open>match('inst')\<close> (no mode given, so the mode is \<^verbatim>\<open>all\<close>) returns exactly
  the keys \<^verbatim>\<open>['quote', 'instruction']\<close>, in this order.
\<close>

theorem scenario_match_inst:
  "fst (match
     (add (Some ''It will work fine after you install that patch.'') (Some ''instruction'')
        (add (Some ''Instant search in Google is awesome!'') (Some ''quote'') new_jsse))
     (Some ''inst'') None)
   = Returns [Some ''quote'', Some ''instruction'']"
  by code_simp

subsection \<open>The size counter\<close>

text \<open>
  Claim C7 says that in every state reached from the empty engine by \<^verbatim>\<open>add\<close>,
  \<^verbatim>\<open>remove\<close>, \<^verbatim>\<open>match\<close> and \<^verbatim>\<open>clear\<close> calls, the counter \<^verbatim>\<open>size\<close> is the number
  of words of the collection. \<^verbatim>\<open>_index\<close> tests \<^verbatim>\<open>if (index[word])\<close> on a dictionary
  that inherits from \<^verbatim>\<open>Object.prototype\<close>. For the word \<^verbatim>\<open>__proto__\<close> the test reads
  the prototype, and \<^verbatim>\<open>index[word].count++\<close> gives the prototype the enumerable property
  \<^verbatim>\<open>count\<close>. From then on \<^verbatim>\<open>for (var word in index)\<close> in \<^verbatim>\<open>_merge\<close> visits
  \<^verbatim>\<open>count\<close> in every index, finds \<^verbatim>\<open>collection['count']\<close> falsy (it is \<^verbatim>\<open>NaN\<close>) and
  runs \<^verbatim>\<open>this.size++\<close>: after \<^verbatim>\<open>add('__proto__')\<close> and \<^verbatim>\<open>add('')\<close> the collection
  has the one name \<^verbatim>\<open>count\<close> and \<^verbatim>\<open>size\<close> is 2. (As long as no text and no query holds
  the word \<^verbatim>\<open>__proto__\<close>, the claim holds: lemma \<open>size_counts_words\<close>.)
\<close>

theorem size_miscounts_with_inherited_count:
  "size_jsse (run [Add (Some ''__proto__'') None, Add (Some []) None]) = 2
   \<and> collection (run [Add (Some ''__proto__'') None, Add (Some []) None]) = [(''count'', NaN)]
   \<and> getWords (run [Add (Some ''__proto__'') None, Add (Some []) None]) = [''count'']"
  by code_simp

subsection \<open>Empty and null texts\<close>

text \<open>
  Claim C8 says that \<^verbatim>\<open>add\<close> and \<^verbatim>\<open>remove\<close> with an empty or null text change
  nothing, with or without a key. With a key it fails: \<^verbatim>\<open>add\<close> stores the text under
  the key before it looks at the text (\<^verbatim>\<open>if (key) this.keys[key] = str\<close>), so
  \<^verbatim>\<open>add('', 'k')\<close> on the empty engine creates a KeyStore entry.
\<close>

theorem empty_text_counterexample:
  "keys_jsse (add (Some []) (Some ''k'') new_jsse) = [(''k'', Some [])]
   \<and> keys_jsse new_jsse = []
   \<and> add (Some []) (Some ''k'') new_jsse \<noteq> new_jsse"
  by (simp add: add_def jsse_index_def jsse_merge_def for_in_entries_plain truthy_def
      new_jsse_def keys_assign_def obj_set_def obj_get_def)

text \<open>
  Claim C8, amended. Take a key other than \<^verbatim>\<open>__proto__\<close>, or none, and a state in which
  \<^verbatim>\<open>Object.prototype\<close> has no property \<^verbatim>\<open>count\<close>. For an empty or null text the index
  is empty, and \<^verbatim>\<open>add\<close> and \<^verbatim>\<open>remove\<close> leave the collection and \<^verbatim>\<open>size\<close> as they
  are. The KeyStore is unchanged when no key is given; with a key, \<^verbatim>\<open>add\<close> stores the
  text under the key and \<^verbatim>\<open>remove\<close>, unless \<^verbatim>\<open>size\<close> is 0, deletes the entry of the
  key.
\<close>

theorem empty_text_contributes_nothing:
  assumes "str = None \<or> str = Some []" and "\<not> proto_count s" and "key \<noteq> Some ''__proto__''"
  shows "jsse_index str (proto_count s) = ([], False)
    \<and> collection (add str key s) = collection s \<and> size_jsse (add str key s) = size_jsse s
    \<and> keys_jsse (add str key s) =
        (if truthy key then obj_set (the key) str (keys_jsse s) else keys_jsse s)
    \<and> collection (remove str key s) = collection s
    \<and> size_jsse (remove str key s) = size_jsse s
    \<and> keys_jsse (remove str key s) =
        (if truthy key \<and> size_jsse s \<noteq> 0 then obj_delete (the key) (keys_jsse s)
         else keys_jsse s)
    \<and> (if truthy key then True else add str key s = s \<and> remove str key s = s)"
proof -
  have i: "jsse_index str pc = ([], pc)" for pc using assms(1) by (rule jsse_index_empty)
  have k: "truthy key \<Longrightarrow> keys_assign (the key) str s
             = s\<lparr>keys_jsse := obj_set (the key) str (keys_jsse s)\<rparr>"
    using assms(3) by (cases key) (simp_all add: keys_assign_def truthy_def)
  have same: "s\<lparr>proto_count := False\<rparr> = s" using assms(2) by simp
  show ?thesis
    using assms(2) k
    by (simp add: i add_def remove_def jsse_merge_def jsse_remove_def for_in_entries_plain
        for_in_plain Let_def same)
qed

text \<open>An instance: the state after \<^verbatim>\<open>add('red car', 'k')\<close>.\<close>

theorem empty_text_contributes_nothing_witness:
  "add (Some []) None (run [Add (Some ''red car'') (Some ''k'')])
     = run [Add (Some ''red car'') (Some ''k'')]
   \<and> remove None None (run [Add (Some ''red car'') (Some ''k'')])
     = run [Add (Some ''red car'') (Some ''k'')]
   \<and> keys_jsse (remove (Some []) (Some ''k'') (run [Add (Some ''red car'') (Some ''k'')])) = []
   \<and> collection (remove (Some []) (Some ''k'') (run [Add (Some ''red car'') (Some ''k'')]))
     = collection (run [Add (Some ''red car'') (Some ''k'')])"
proof -
  let ?s = "run [Add (Some ''red car'') (Some ''k'')]"
  have k: "keys_jsse ?s = [(''k'', Some ''red car'')]" and z: "size_jsse ?s = 2"
    and pc: "\<not> proto_count ?s"
    by code_simp+
  have a: "(Some [] :: string option) = None \<or> (Some [] :: string option) = Some []"
    and b: "(None :: string option) = None \<or> (None :: string option) = Some []"
    and n: "(None :: string option) \<noteq> Some ''__proto__''"
    and m: "Some ''k'' \<noteq> Some ''__proto__''"
    by simp_all
  show ?thesis
    using empty_text_contributes_nothing [OF a pc n]
      empty_text_contributes_nothing [OF b pc n]
      empty_text_contributes_nothing [OF a pc m]
    by (simp add: truthy_def k z obj_delete_def)
qed

text \<open>
  What the amended claim leaves out. Once \<^verbatim>\<open>Object.prototype\<close> has the property
  \<^verbatim>\<open>count\<close>, \<^verbatim>\<open>add('')\<close> raises \<^verbatim>\<open>size\<close>. For the key \<^verbatim>\<open>__proto__\<close> the assignment
  \<^verbatim>\<open>this.keys[key] = str\<close> calls the inherited setter: the empty text is not stored, and
  the text \<^verbatim>\<open>null\<close> takes the prototype away from the KeyStore.
\<close>

lemma empty_text_with_inherited_count:
  "size_jsse (run [Add (Some ''__proto__'') None]) = 1
   \<and> size_jsse (add (Some []) None (run [Add (Some ''__proto__'') None])) = 2"
  by code_simp

lemma empty_text_under_proto_key:
  "add (Some []) (Some ''__proto__'') new_jsse = new_jsse
   \<and> add None (Some ''__proto__'') new_jsse = new_jsse\<lparr>keys_proto := False\<rparr>"
  by code_simp

subsection \<open>The KeyStore entry of a removed key\<close>

text \<open>
  Claim C9 says that \<^verbatim>\<open>remove(text, K)\<close> always deletes the KeyStore entry of \<open>K\<close>.
  \<^verbatim>\<open>remove\<close> starts with the guard \<^verbatim>\<open>if (this.size == 0) return this\<close>: on an empty
  collection it returns before the entry is deleted. The text \<^verbatim>\<open>'a'\<close> has no word (it
  is shorter than 2), so after \<^verbatim>\<open>add('a', 'k')\<close> the collection is empty and
  \<^verbatim>\<open>remove('a', 'k')\<close> keeps the entry.
\<close>

theorem remove_keeps_key_counterexample:
  "obj_get (keys_jsse (remove (Some ''a'') (Some ''k'') (add (Some ''a'') (Some ''k'') new_jsse))) ''k''
     = Some (Some ''a'')"
  by code_simp

text \<open>
  Claim C9, amended. For every engine state whose \<^verbatim>\<open>size\<close> is not 0, every text and
  every non-empty key \<open>K\<close>, after \<^verbatim>\<open>remove(text, K)\<close> the KeyStore has no entry for
  \<open>K\<close>. For every engine state whose \<^verbatim>\<open>size\<close> is 0, \<^verbatim>\<open>remove\<close> returns at its guard
  and leaves the state as it is, the entry of \<open>K\<close> included.
\<close>

theorem remove_deletes_key:
  "(k \<noteq> [] \<longrightarrow> size_jsse s \<noteq> 0 \<longrightarrow> obj_get (keys_jsse (remove str (Some k) s)) k = None)
   \<and> (size_jsse s = 0 \<longrightarrow> remove str key s = s)"
  by (simp add: remove_def Let_def truthy_def obj_get_delete split: prod.splits)

text \<open>
  An instance: \<^verbatim>\<open>remove\<close> after \<^verbatim>\<open>add('red car', 'k')\<close>, where \<^verbatim>\<open>size\<close> is 2, and after
  \<^verbatim>\<open>add('a', 'k')\<close>, where it is 0.
\<close>

theorem remove_deletes_key_witness:
  "obj_get (keys_jsse (add (Some ''red car'') (Some ''k'') new_jsse)) ''k'' = Some (Some ''red car'')
   \<and> obj_get (keys_jsse (remove (Some ''red car'') (Some ''k'')
                           (add (Some ''red car'') (Some ''k'') new_jsse))) ''k'' = None
   \<and> remove (Some ''a'') (Some ''k'') (add (Some ''a'') (Some ''k'') new_jsse)
       = add (Some ''a'') (Some ''k'') new_jsse"
proof -
  let ?s = "add (Some ''red car'') (Some ''k'') new_jsse"
  let ?t = "add (Some ''a'') (Some ''k'') new_jsse"
  have z: "size_jsse ?s \<noteq> 0" and k: "obj_get (keys_jsse ?s) ''k'' = Some (Some ''red car'')"
    and e: "size_jsse ?t = 0"
    by code_simp+
  have n: "''k'' \<noteq> []" by simp
  show ?thesis
    using remove_deletes_key [of "''k''" ?s "Some ''red car''" None]
      remove_deletes_key [of "''k''" ?t "Some ''a''" "Some ''k''"] z k e n
    by simp
qed

subsection \<open>Removing a key from a word\<close>

text \<open>
  Claim C2 says that \<^verbatim>\<open>_remove\<close> with a key \<open>K\<close> takes \<open>K\<close> out of the keys list of
  each word and leaves every other element of the list in place. The code calls
  \<^verbatim>\<open>array.splice(i)\<close> where \<^verbatim>\<open>array.splice(i, 1)\<close> is meant, and so drops every key
  that follows \<open>K\<close> as well: after \<^verbatim>\<open>add('hello', 'k1')\<close> and \<^verbatim>\<open>add('hello', 'k2')\<close>
  the keys of \<^verbatim>\<open>hello\<close> are \<^verbatim>\<open>['k1', 'k2']\<close>, and \<^verbatim>\<open>remove('hello', 'k1')\<close> leaves
  no key, where the claim leaves \<^verbatim>\<open>['k2']\<close>. (In general \<^verbatim>\<open>removeFromArray\<close> keeps the
  elements before the first occurrence of the item: lemma \<open>removeFromArray_eq\<close>.)
\<close>

theorem remove_truncates_keys:
  "collection (add (Some ''hello'') (Some ''k2'') (add (Some ''hello'') (Some ''k1'') new_jsse))
     = [(''hello'', Obj \<lparr>weight = 5, count = 2, keys = [''k1'', ''k2'']\<rparr>)]
   \<and> collection (remove (Some ''hello'') (Some ''k1'')
        (add (Some ''hello'') (Some ''k2'') (add (Some ''hello'') (Some ''k1'') new_jsse)))
     = [(''hello'', Obj \<lparr>weight = 5, count = 1, keys = []\<rparr>)]"
  by code_simp

subsection \<open>The number of query words\<close>

text \<open>
  Claim C3 says that the number \<^verbatim>\<open>size\<close> that \<^verbatim>\<open>match\<close> computes is the number of
  distinct words of the query, whatever the collection holds. The query
  \<^verbatim>\<open>'instant inst'\<close> has two words. On the empty engine \<^verbatim>\<open>size\<close> is 2. Once the
  collection holds \<^verbatim>\<open>instant\<close>, the expansion loop of \<^verbatim>\<open>_indexAgainst\<close> overwrites the
  entry of the query word \<^verbatim>\<open>instant\<close> with the tag \<^verbatim>\<open>inst\<close>, and \<^verbatim>\<open>size\<close> is 1.
  (For a query without the word \<^verbatim>\<open>__proto__\<close>, in a state where \<^verbatim>\<open>Object.prototype\<close>
  has no property \<^verbatim>\<open>count\<close>: where no word of the index of the query starts with
  another one, \<^verbatim>\<open>size\<close> is the number of words of that index, whatever the collection
  holds: lemma \<open>query_size_counts_query_words\<close>.)
\<close>

theorem query_size_undercounts:
  "map fst (fst (jsse_index (Some ''instant inst'') False)) = [''instant'', ''inst'']
   \<and> (case jsse_indexAgainst new_jsse (Some ''instant inst'') of
         (index, pc) \<Rightarrow> query_size pc index) = 2
   \<and> (case jsse_indexAgainst (add (Some ''instant'') (Some ''k1'') new_jsse)
               (Some ''instant inst'') of
         (index, pc) \<Rightarrow> query_size pc index) = 1"
  by code_simp

subsection \<open>The two modes\<close>

text \<open>
  Claim C6 says that the keys of \<^verbatim>\<open>match(query, 'all')\<close> are among the keys of
  \<^verbatim>\<open>match(query, 'any')\<close>. The second branch of \<^verbatim>\<open>match\<close> stores the scores in an
  array, \<^verbatim>\<open>nb_keywords[key] = ...\<close>; for the document key \<^verbatim>\<open>'length'\<close> this sets the
  length of the array and creates no property, so the key is lost: after
  \<^verbatim>\<open>add('hello', 'length')\<close>, the mode \<^verbatim>\<open>all\<close> returns \<^verbatim>\<open>['length']\<close> and the mode
  \<^verbatim>\<open>any\<close> returns no key. (For a query without the word \<^verbatim>\<open>__proto__\<close>, in a state
  where \<^verbatim>\<open>Object.prototype\<close> has no property \<^verbatim>\<open>count\<close>: where the mode \<^verbatim>\<open>any\<close>
  returns and no key found is \<^verbatim>\<open>length\<close>, the mode \<^verbatim>\<open>all\<close> returns and the claim
  holds: lemma \<open>match_all_within_any\<close>.)
\<close>

theorem match_all_not_within_any:
  "fst (match (add (Some ''hello'') (Some ''length'') new_jsse) (Some ''hello'') (Some ''all''))
     = Returns [Some ''length'']
   \<and> fst (match (add (Some ''hello'') (Some ''length'') new_jsse) (Some ''hello'') (Some ''any''))
     = Returns []"
  by code_simp

subsection \<open>Prefix containment\<close>

text \<open>
  Claim C4 says that for a word \<open>W\<close> of the collection and a prefix \<open>P\<close> of \<open>W\<close> of
  length at least 2 that normalization leaves unchanged, \<^verbatim>\<open>match(P, 'all')\<close> includes
  every key of the keys list of \<open>W\<close>. \<^verbatim>\<open>_index\<close> decides whether a word is new with
  \<^verbatim>\<open>if (index[word])\<close>, on a dictionary that inherits from \<^verbatim>\<open>Object.prototype\<close>: for
  the word \<^verbatim>\<open>constructor\<close> the test reads the inherited function, takes the word as
  already indexed and makes no entry for it. After \<^verbatim>\<open>add('constructors', 'k')\<close> the
  collection holds \<^verbatim>\<open>constructors\<close> with the key \<^verbatim>\<open>k\<close>; the index of the query
  \<^verbatim>\<open>'constructor'\<close> is empty, and \<^verbatim>\<open>match('constructor', 'all')\<close> returns no key. (In
  a state where \<^verbatim>\<open>Object.prototype\<close> has no property \<^verbatim>\<open>count\<close>, for a prefix that
  holds no space and is not a name of \<^verbatim>\<open>Object.prototype\<close>, the claim holds where
  \<^verbatim>\<open>match\<close> returns: lemma \<open>prefix_containment\<close>.)
\<close>

theorem prefix_constructor_finds_nothing:
  "obj_get (collection (add (Some ''constructors'') (Some ''k'') new_jsse)) ''constructors''
     = Some (Obj \<lparr>weight = 12, count = 1, keys = [''k'']\<rparr>)
   \<and> take (length ''constructor'') ''constructors'' = ''constructor''
   \<and> normalize_word ''constructor'' = ''constructor''
   \<and> jsse_index (Some ''constructor'') False = ([], False)
   \<and> fst (match (add (Some ''constructors'') (Some ''k'') new_jsse) (Some ''constructor'')
            (Some ''all''))
     = Returns []"
  by code_simp

subsection \<open>The round trip of \<^verbatim>\<open>add\<close> and \<^verbatim>\<open>remove\<close>\<close>

text \<open>
  Claim C1 says that \<^verbatim>\<open>add(T, K)\<close> followed by \<^verbatim>\<open>remove(T, K)\<close> restores \<^verbatim>\<open>size\<close>,
  the collection and the KeyStore, for every state, text and key. The engine keeps one
  text per key: \<^verbatim>\<open>add\<close> overwrites the KeyStore entry of a key that is already in use
  and \<^verbatim>\<open>remove\<close> deletes the entry, so the text stored before is lost. After
  \<^verbatim>\<open>add('hello world', 'k')\<close> the round trip of \<^verbatim>\<open>'red car'\<close> under the same key
  leaves an empty KeyStore.
\<close>

theorem add_remove_roundtrip_counterexample:
  "keys_jsse (run [Add (Some ''hello world'') (Some ''k'')]) = [(''k'', Some ''hello world'')]
   \<and> keys_jsse (remove (Some ''red car'') (Some ''k'')
                  (add (Some ''red car'') (Some ''k'')
                     (run [Add (Some ''hello world'') (Some ''k'')]))) = []"
  by code_simp

text \<open>
  Claim C1, amended. Take a state reached from the empty engine and a text such that,
  after \<^verbatim>\<open>_index\<close> has run on the text, \<^verbatim>\<open>Object.prototype\<close> has no property
  \<^verbatim>\<open>count\<close> (so neither the text nor any text or query before it held the word
  \<^verbatim>\<open>__proto__\<close>). Let every word of the index of the text that is new to the collection
  occur once in the text, and let the key be absent or empty, or else be different from
  \<^verbatim>\<open>__proto__\<close> and neither in the KeyStore nor in the keys list of a word of the
  index, where the index has a word or the collection is not empty. Then \<^verbatim>\<open>add(T, K)\<close>
  followed by \<^verbatim>\<open>remove(T, K)\<close> gives the state before the \<^verbatim>\<open>add\<close>: \<^verbatim>\<open>size\<close>, the
  collection with every weight, count and keys list, and the KeyStore.
\<close>

theorem add_remove_roundtrip:
  assumes idx: "jsse_index str (proto_count (run ops)) = (index, False)"
    and once: "new_words_once (run ops) index"
    and key: "case key of
                None \<Rightarrow> True
              | Some K \<Rightarrow> if K = [] then True
                          else K \<noteq> ''__proto__'' \<and> key_unused (run ops) index K
                               \<and> (if collection (run ops) = [] then index \<noteq> [] else True)"
  shows "remove str key (add str key (run ops)) = run ops"
proof -
  let ?s = "run ops"
  let ?own = "map (\<lambda>p. (fst p, Obj (snd p))) index"
  have pc: "proto_count ?s = False" using idx by (rule jsse_index_clean)
  then have wf: "wf_jsse ?s" by (simp add: run_wf)
  have idx': "jsse_index str False = (index, False)" using idx pc by simp
  have d: "distinct (map fst index)" using jsse_index_distinct [of str False] idx' by simp
  have c: "list_all (\<lambda>q. 1 \<le> count (snd q)) index"
    using jsse_index_counts [of str False] idx' by simp
  have same: "?s\<lparr>proto_count := False\<rparr> = ?s" using pc by simp
  have once1: "list_all (\<lambda>p. case obj_get (collection ?s) (fst p) of
                      None \<Rightarrow> count (snd p) = 1 | Some v \<Rightarrow> True) index"
    using once by (simp add: new_words_once_def)
  show ?thesis
  proof (cases "truthy key")
    case False
    have unused: "truthy key \<Longrightarrow>
      list_all (\<lambda>p. case obj_get (collection ?s) (fst p) of
                      Some (Obj e) \<Rightarrow> the key \<notin> set (keys e) | _ \<Rightarrow> True) index"
      using False by simp
    have undo: "fold (remove_word key) (map fst index) (fold (merge_word key) ?own ?s) = ?s"
      using wf d c once1 unused by (rule fold_merge_remove)
    have add: "add str key ?s = fold (merge_word key) ?own ?s"
      using False pc idx' by (simp add: add_def jsse_merge_plain same)
    show ?thesis
    proof (cases "index = []")
      case True
      then show ?thesis using add False pc idx'
        by (simp add: remove_def Let_def jsse_remove_plain same)
    next
      case ne: False
      have "wf_jsse (fold (merge_word key) ?own ?s)" using wf c by (rule fold_merge_word_wf)
      moreover have "collection (fold (merge_word key) ?own ?s) \<noteq> []"
        using ne by (simp add: fold_merge_word_grows)
      ultimately have nz: "size_jsse (fold (merge_word key) ?own ?s) \<noteq> 0"
        by (auto simp: wf_jsse_def)
      have pc': "proto_count (fold (merge_word key) ?own ?s) = False"
        using pc by (simp add: fold_merge_word_fields)
      have same': "(fold (merge_word key) ?own ?s)\<lparr>proto_count := False\<rparr>
                    = fold (merge_word key) ?own ?s"
        using pc' by simp
      show ?thesis using add nz undo False pc' idx'
        by (simp add: remove_def Let_def jsse_remove_plain same')
    qed
  next
    case True
    let ?K = "the key"
    from True key have kp: "?K \<noteq> ''__proto__''" and ku: "key_unused ?s index ?K"
      and ne: "collection ?s = [] \<Longrightarrow> index \<noteq> []"
      by (auto simp: truthy_def split: option.splits if_splits)
    have absent: "obj_get (keys_jsse ?s) ?K = None" using ku by (simp add: key_unused_def)
    let ?s1 = "?s\<lparr>keys_jsse := obj_set ?K str (keys_jsse ?s)\<rparr>"
    have wf1: "wf_jsse ?s1" using wf by (simp add: wf_jsse_other_fields)
    have once2: "list_all (\<lambda>p. case obj_get (collection ?s1) (fst p) of
                      None \<Rightarrow> count (snd p) = 1 | Some v \<Rightarrow> True) index"
      using once1 by simp
    have unused: "truthy key \<Longrightarrow>
      list_all (\<lambda>p. case obj_get (collection ?s1) (fst p) of
                      Some (Obj e) \<Rightarrow> the key \<notin> set (keys e) | _ \<Rightarrow> True) index"
      using ku by (simp add: key_unused_def)
    have undo: "fold (remove_word key) (map fst index) (fold (merge_word key) ?own ?s1) = ?s1"
      using wf1 d c once2 unused by (rule fold_merge_remove)
    have same1: "?s1\<lparr>proto_count := False\<rparr> = ?s1" using pc by simp
    have add: "add str key ?s = fold (merge_word key) ?own ?s1"
      using True pc idx' keys_assign_undo(1) [OF kp absent, of str]
      by (simp add: add_def jsse_merge_plain same1)
    have wfa: "wf_jsse (fold (merge_word key) ?own ?s1)" using wf1 c by (rule fold_merge_word_wf)
    have grow: "collection (fold (merge_word key) ?own ?s1) \<noteq> []"
    proof (cases "index = []")
      case True
      with ne have "collection ?s \<noteq> []" by auto
      with True show ?thesis by simp
    next
      case False
      then show ?thesis by (simp add: fold_merge_word_grows)
    qed
    with wfa have nz: "size_jsse (fold (merge_word key) ?own ?s1) \<noteq> 0"
      by (auto simp: wf_jsse_def)
    have pc': "proto_count (fold (merge_word key) ?own ?s1) = False"
      using pc by (simp add: fold_merge_word_fields)
    have same': "(fold (merge_word key) ?own ?s1)\<lparr>proto_count := False\<rparr>
                  = fold (merge_word key) ?own ?s1"
      using pc' by simp
    have del: "obj_delete ?K (obj_set ?K str (keys_jsse ?s)) = keys_jsse ?s"
      using kp absent by (rule keys_assign_undo(2))
    have "?s1\<lparr>keys_jsse := keys_jsse ?s\<rparr> = ?s" by simp
    then show ?thesis using add nz undo True pc' idx' del
      by (simp add: remove_def Let_def jsse_remove_plain same')
  qed
qed

text \<open>An instance: a text with a word of the collection and a new word, under a new
  key.\<close>

theorem add_remove_roundtrip_witness:
  "remove (Some ''instant install'') (Some ''k2'')
     (add (Some ''instant install'') (Some ''k2'')
        (run [Add (Some ''Instant search'') (Some ''quote'')]))
   = run [Add (Some ''Instant search'') (Some ''quote'')]
   \<and> collection (add (Some ''instant install'') (Some ''k2'')
        (run [Add (Some ''Instant search'') (Some ''quote'')]))
     = [(''instant'', Obj \<lparr>weight = 7, count = 2, keys = [''quote'', ''k2'']\<rparr>),
        (''search'', Obj \<lparr>weight = 6, count = 1, keys = [''quote'']\<rparr>),
        (''install'', Obj \<lparr>weight = 7, count = 1, keys = [''k2'']\<rparr>)]"
proof -
  let ?ops = "[Add (Some ''Instant search'') (Some ''quote'')]"
  let ?index = "[(''instant'', \<lparr>weight = 7, count = 1\<rparr>), (''install'', \<lparr>weight = 7, count = 1\<rparr>)]"
  have idx: "jsse_index (Some ''instant install'') (proto_count (run ?ops)) = (?index, False)"
    by code_simp
  have once: "new_words_once (run ?ops) ?index"
    by code_simp
  have key: "case Some ''k2'' of
                None \<Rightarrow> True
              | Some K \<Rightarrow> if K = [] then True
                          else K \<noteq> ''__proto__'' \<and> key_unused (run ?ops) ?index K
                               \<and> (if collection (run ?ops) = [] then ?index \<noteq> [] else True)"
    by code_simp
  have c: "collection (add (Some ''instant install'') (Some ''k2'') (run ?ops))
     = [(''instant'', Obj \<lparr>weight = 7, count = 2, keys = [''quote'', ''k2'']\<rparr>),
        (''search'', Obj \<lparr>weight = 6, count = 1, keys = [''quote'']\<rparr>),
        (''install'', Obj \<lparr>weight = 7, count = 1, keys = [''k2'']\<rparr>)]"
    by code_simp
  from add_remove_roundtrip [OF idx once key] c show ?thesis by simp
qed

text \<open>
  What the amended claim leaves out. A new word that occurs twice in the text enters the
  collection with count 2, and \<^verbatim>\<open>remove\<close> takes 1 off. A text with the word
  \<^verbatim>\<open>__proto__\<close> gives \<^verbatim>\<open>Object.prototype\<close> the property \<^verbatim>\<open>count\<close>, which \<^verbatim>\<open>_merge\<close>
  then stores in the collection as a word.
\<close>

lemma add_remove_repeated_word:
  "remove (Some ''foo foo'') (Some ''k'') (add (Some ''foo foo'') (Some ''k'') new_jsse)
     = new_jsse\<lparr>size_jsse := 1,
                collection := [(''foo'', Obj \<lparr>weight = 3, count = 1, keys = []\<rparr>)]\<rparr>"
  by code_simp

lemma add_remove_proto_word:
  "remove (Some ''__proto__ hello'') (Some ''k'')
     (add (Some ''__proto__ hello'') (Some ''k'') new_jsse)
     = new_jsse\<lparr>size_jsse := 1, collection := [(''count'', NaN)], proto_count := True\<rparr>"
  by code_simp

subsection \<open>\<^verbatim>\<open>match\<close> is read-only\<close>

text \<open>
  Claim C10 says that \<^verbatim>\<open>match\<close> leaves the collection, \<^verbatim>\<open>size\<close> and the KeyStore as
  they are. \<^verbatim>\<open>match\<close> assigns to no field of the engine (lemma \<open>match_keeps_engine\<close>),
  but it runs \<^verbatim>\<open>_index\<close> on the query, and for the word \<^verbatim>\<open>__proto__\<close> the statement
  \<^verbatim>\<open>index[word].count++\<close> writes to \<^verbatim>\<open>Object.prototype\<close>, from which the collection
  inherits: the collection gets the enumerable name \<^verbatim>\<open>count\<close>. After
  \<^verbatim>\<open>add('red car', 'k')\<close> the words are \<^verbatim>\<open>red\<close> and \<^verbatim>\<open>car\<close>; \<^verbatim>\<open>match('__proto__')\<close>
  returns no key, and after it \<^verbatim>\<open>getWords\<close> lists \<^verbatim>\<open>red\<close>, \<^verbatim>\<open>car\<close> and \<^verbatim>\<open>count\<close>,
  and \<^verbatim>\<open>add('')\<close> raises \<^verbatim>\<open>size\<close> from 2 to 3 where before the call it left it at 2.
  (For a query without the word \<^verbatim>\<open>__proto__\<close> the state after the call is the state
  before it: lemma \<open>match_keeps_state\<close>.)
\<close>

theorem match_writes_prototype:
  "getWords (run [Add (Some ''red car'') (Some ''k'')]) = [''red'', ''car'']
   \<and> size_jsse (add (Some []) None (run [Add (Some ''red car'') (Some ''k'')])) = 2
   \<and> fst (match (run [Add (Some ''red car'') (Some ''k'')]) (Some ''__proto__'') None)
       = Returns []
   \<and> getWords (snd (match (run [Add (Some ''red car'') (Some ''k'')]) (Some ''__proto__'') None))
       = [''red'', ''car'', ''count'']
   \<and> size_jsse (add (Some []) None
        (snd (match (run [Add (Some ''red car'') (Some ''k'')]) (Some ''__proto__'') None)))
       = 3"
  by code_simp

text \<open>
  \<^verbatim>\<open>match\<close> need not return: with a document key that is a name of
  \<^verbatim>\<open>Object.prototype\<close>, \<^verbatim>\<open>if (keys[key])\<close> reads the inherited function and
  \<^verbatim>\<open>keys[key].push(orig)\<close> raises a \<^verbatim>\<open>TypeError\<close>.
\<close>

lemma match_throws_on_inherited_key:
  "fst (match (add (Some ''hello'') (Some ''toString'') new_jsse) (Some ''hello'') None) = Throws"
  by code_simp

end
